theory Spec2Isabelle
  imports Complex_Main
begin

section \<open>The tone engine and sequence player of app.js\<close>

text \<open>
  The program is one script: a class \<open>ToneEngine\<close> that drives a Web Audio graph, and a
  sequence player built from three functions and three variables of the enclosing
  closure. The embedding keeps the source's names. Everything the script reaches outside
  itself is made explicit state: the audio nodes it creates (a store of gain nodes and a
  store of oscillators, addressed by index), the browser's timer queue
  (\<open>setTimeout\<close>/\<open>clearTimeout\<close>), the clock, and the writes to the page.
\<close>

subsection \<open>JavaScript values and the frequency tables\<close>

text \<open>
  The values that can come out of a property read on one of the two table objects.
  \<open>Inherited\<close> stands for a member found on \<open>Object.prototype\<close> (a function, or
  the prototype object itself): it is truthy and is not a number.
\<close>

datatype jsval = Undefined | Null | Num nat | Inherited

fun truthy :: "jsval \<Rightarrow> bool" where
  "truthy Undefined = False"
| "truthy Null = False"
| "truthy (Num n) = (n \<noteq> 0)"
| "truthy Inherited = True"

text \<open>
  The two object literals of \<open>getFrequenciesForKey\<close>, as the association lists they are
  written as.
\<close>

definition dtmfLow :: "(string \<times> nat) list" where
  "dtmfLow =
    [(''1'', 697), (''2'', 697), (''3'', 697),
     (''4'', 770), (''5'', 770), (''6'', 770),
     (''7'', 852), (''8'', 852), (''9'', 852),
     (''*'', 941), (''0'', 941), (''#'', 941)]"

definition dtmfHigh :: "(string \<times> nat) list" where
  "dtmfHigh =
    [(''1'', 1209), (''2'', 1336), (''3'', 1477),
     (''4'', 1209), (''5'', 1336), (''6'', 1477),
     (''7'', 1209), (''8'', 1336), (''9'', 1477),
     (''*'', 1209), (''0'', 1336), (''#'', 1477)]"

text \<open>
  The names every object literal inherits from \<open>Object.prototype\<close>. A read
  \<open>table[key]\<close> looks at the literal's own properties first and at these next, and
  yields \<open>undefined\<close> only when both fail.
\<close>

definition objectPrototypeNames :: "string list" where
  "objectPrototypeNames =
    [''constructor'', ''hasOwnProperty'', ''isPrototypeOf'', ''propertyIsEnumerable'',
     ''toLocaleString'', ''toString'', ''valueOf'', ''__proto__'',
     ''__defineGetter__'', ''__defineSetter__'', ''__lookupGetter__'', ''__lookupSetter__'']"

definition getProp :: "(string \<times> nat) list \<Rightarrow> string \<Rightarrow> jsval" where
  "getProp table key =
    (case map_of table key of
       Some n \<Rightarrow> Num n
     | None \<Rightarrow> if key \<in> set objectPrototypeNames then Inherited else Undefined)"

datatype preset = US | JP

record toneSpec =
  spec_a :: jsval
  spec_b :: jsval
  isContinuous :: bool
  cadence :: "(nat \<times> nat) option"

text \<open>
  \<open>getFrequenciesForKey\<close> reads \<open>this.dialPreset\<close> and nothing else of the engine, so
  the preset is its first argument. \<open>None\<close> is the \<open>null\<close> it returns; the fields
  \<open>spec_a\<close> and \<open>spec_b\<close> are the source's \<open>a\<close> and \<open>b\<close>, and the cadence is the pair
  \<open>(onMs, offMs)\<close>.
\<close>

definition getFrequenciesForKey :: "preset \<Rightarrow> string \<Rightarrow> toneSpec option" where
  "getFrequenciesForKey dp key =
    (if key = ''*'' then
       (if dp = JP
        then Some \<lparr>spec_a = Num 400, spec_b = Null, isContinuous = True, cadence = None\<rparr>
        else Some \<lparr>spec_a = Num 350, spec_b = Num 440, isContinuous = True, cadence = None\<rparr>)
     else if key = ''/'' then
       Some \<lparr>spec_a = Num 480, spec_b = Num 620, isContinuous = False, cadence = Some (250, 250)\<rparr>
     else
       (let low = getProp dtmfLow key; high = getProp dtmfHigh key in
        if \<not> truthy low \<or> \<not> truthy high then None
        else Some \<lparr>spec_a = low, spec_b = high, isContinuous = False, cadence = None\<rparr>))"

text \<open>The set \<open>validKeys\<close> of the script, in the order it is written.\<close>

definition validKeys :: "string list" where
  "validKeys = [''0'', ''1'', ''2'', ''3'', ''4''] @ [''5'', ''6'', ''7'', ''8'', ''9'']
                @ [''#'', ''*'', ''/'']"

definition validKeys_has :: "string \<Rightarrow> bool" where
  "validKeys_has k = (k \<in> set validKeys)"

text \<open>The digit keys and \<open>#\<close>, row by row of the keypad: the keys that carry a DTMF pair.\<close>

definition dtmfKeys :: "string list" where
  "dtmfKeys = [''1'', ''2'', ''3''] @ [''4'', ''5'', ''6''] @ [''7'', ''8'', ''9''] @ [''0'', ''#'']"

text \<open>The pair \<open>(spec.a, spec.b)\<close> of a lookup, for comparing the pairs of different keys.\<close>

definition pairOf :: "preset \<Rightarrow> string \<Rightarrow> (jsval \<times> jsval) option" where
  "pairOf dp key = map_option (\<lambda>s. (spec_a s, spec_b s)) (getFrequenciesForKey dp key)"

subsection \<open>The state: engine, closure variables, audio nodes, timers, page\<close>

datatype ctxState = Suspended | Running

datatype target = Destination | GainInput nat

record gainNode =
  gainValue :: real
  gainOut :: "target option"

record oscNode =
  frequency :: nat
  oscOut :: "nat option"
  started :: bool
  stopped :: bool

text \<open>An oscillator sounds from its \<open>start()\<close> until its \<open>stop()\<close>.\<close>

definition alive :: "oscNode \<Rightarrow> bool" where
  "alive n = (started n \<and> \<not> stopped n)"

text \<open>
  The functions the script hands to \<open>setTimeout\<close>, each with the variables its closure
  captures:
  \<^item> \<open>Toggle isOn onMs offMs\<close> is \<open>() => toggle(!isOn)\<close> of \<open>startToneForKey\<close>, holding
    the argument the next call of \<open>toggle\<close> gets;
  \<^item> \<open>PlayOnceTimeout localK\<close> is the function \<open>playOnce\<close> schedules after
    \<open>autoDurationMs\<close>;
  \<^item> \<open>ScheduleNext\<close> is \<open>scheduleNextFromBuffer\<close>;
  \<^item> \<open>RemoveHighlight k\<close> removes \<open>is-active\<close> from the button of key \<open>k\<close>;
  \<^item> \<open>AutoStop localKey\<close> is the function \<open>triggerKeyDown\<close> schedules in auto mode.
\<close>

datatype callback =
    Toggle bool nat nat
  | PlayOnceTimeout string
  | ScheduleNext
  | RemoveHighlight string
  | AutoStop string

record timer =
  timerId :: nat
  due :: nat
  action :: callback

text \<open>
  The texts \<open>setStatus\<close> is called with: waiting, now playing, stopped, the hint of hold
  mode, and the hint of auto mode with its duration.
\<close>

datatype status = Waiting | NowPlaying | Halted | HoldHint | AutoHint nat

text \<open>
  What the script does to the page, in the order it does it, and (as a history of the
  engine) each tone \<open>startToneForKey\<close> brings up and each teardown \<open>stopTone\<close> carries
  out.
\<close>

datatype effect =
    SetStatus status
  | SetCurrentKey string
  | AppendLog string
  | AddActive string
  | RemoveActive string
  | ToneStarted string
  | ToneStopped

datatype playMode = Hold | Auto

text \<open>
  The state. First the ten fields of the engine, named as in the class; then the
  variables of the closure (\<open>playMode\<close> is the script's \<open>mode\<close>); then what lies outside
  the script: the gain nodes and the oscillators created so far, the timer queue, the
  clock in milliseconds, the handle the next timer gets, and the trace.
\<close>

record world =
  audioContext :: "ctxState option"
  masterGain :: "nat option"
  toneGain :: "nat option"
  oscA :: "nat option"
  oscB :: "nat option"
  currentKey :: "string option"
  isStarted :: bool
  masterVolume :: real
  cadenceTimeoutId :: "nat option"
  dialPreset :: preset
  playMode :: playMode
  autoDurationMs :: nat
  gapMs :: nat
  seqTimer :: "nat option"
  seqBuffer :: "string list"
  isSeqPlaying :: bool
  gains :: "gainNode list"
  oscs :: "oscNode list"
  timers :: "timer list"
  clock :: nat
  nextTimerId :: nat
  trace :: "effect list"

text \<open>
  The state when the script has run to its end: the constructor's values, the two slider
  values \<open>d\<close> and \<open>g\<close> read from the page, nothing created, nothing scheduled.
\<close>

definition initial :: "nat \<Rightarrow> nat \<Rightarrow> world" where
  "initial d g =
    \<lparr>audioContext = None, masterGain = None, toneGain = None, oscA = None, oscB = None,
     currentKey = None, isStarted = False, masterVolume = 3 / 10, cadenceTimeoutId = None,
     dialPreset = US, playMode = Hold, autoDurationMs = d, gapMs = g,
     seqTimer = None, seqBuffer = [], isSeqPlaying = False,
     gains = [], oscs = [], timers = [], clock = 0, nextTimerId = 1, trace = []\<rparr>"

subsection \<open>Timers\<close>

definition setTimeout :: "callback \<Rightarrow> nat \<Rightarrow> world \<Rightarrow> nat \<times> world" where
  "setTimeout cb delay w =
    (nextTimerId w,
     w\<lparr>timers := timers w @ [\<lparr>timerId = nextTimerId w, due = clock w + delay, action = cb\<rparr>],
       nextTimerId := Suc (nextTimerId w)\<rparr>)"

definition clearTimeout :: "nat \<Rightarrow> world \<Rightarrow> world" where
  "clearTimeout i w = w\<lparr>timers := filter (\<lambda>t. timerId t \<noteq> i) (timers w)\<rparr>"

text \<open>A statement that throws leaves the state as it is at that point.\<close>

datatype 'a outcome = Returns 'a | Throws 'a

fun worldOf :: "'a outcome \<Rightarrow> 'a" where
  "worldOf (Returns w) = w"
| "worldOf (Throws w) = w"

fun andThen :: "'a outcome \<Rightarrow> ('a \<Rightarrow> 'a outcome) \<Rightarrow> 'a outcome" where
  "andThen (Returns w) f = f w"
| "andThen (Throws w) f = Throws w"

subsection \<open>ToneEngine\<close>

text \<open>
  \<open>ensureContext\<close> creates the audio context and the master gain on first use, and
  resumes a suspended context. Whether the browser creates the context suspended or
  running, it is running afterwards; the model creates it suspended. The master gain is
  the node the engine connects to the destination.
\<close>

definition ensureContext :: "world \<Rightarrow> world" where
  "ensureContext w =
    (let w1 = (if audioContext w = None
               then w\<lparr>audioContext := Some Suspended,
                      gains := gains w @ [\<lparr>gainValue = masterVolume w, gainOut = Some Destination\<rparr>],
                      masterGain := Some (length (gains w))\<rparr>
               else w)
     in if audioContext w1 = Some Suspended then w1\<lparr>audioContext := Some Running\<rparr> else w1)"

definition setVolume :: "real \<Rightarrow> world \<Rightarrow> world" where
  "setVolume volume w =
    (let w1 = w\<lparr>masterVolume := volume\<rparr> in
     case masterGain w1 of
       None \<Rightarrow> w1
     | Some mg \<Rightarrow> w1\<lparr>gains := (gains w1)[mg := (gains w1 ! mg)\<lparr>gainValue := volume\<rparr>]\<rparr>)"

definition setDialPreset :: "preset \<Rightarrow> world \<Rightarrow> world" where
  "setDialPreset p w = w\<lparr>dialPreset := p\<rparr>"

text \<open>
  \<open>osc.stop(now)\<close> inside \<open>try\<close>: an oscillator that was never started throws, the
  \<open>catch\<close> drops it, and the node is as before. \<open>osc.disconnect()\<close> follows.
\<close>

definition oscStopDisconnect :: "nat \<Rightarrow> world \<Rightarrow> world" where
  "oscStopDisconnect i w =
    w\<lparr>oscs := (oscs w)[i := (oscs w ! i)\<lparr>stopped := (started (oscs w ! i) \<or> stopped (oscs w ! i)),
                                        oscOut := None\<rparr>]\<rparr>"

definition gainDisconnect :: "nat \<Rightarrow> world \<Rightarrow> world" where
  "gainDisconnect g w = w\<lparr>gains := (gains w)[g := (gains w ! g)\<lparr>gainOut := None\<rparr>]\<rparr>"

definition stopTone :: "world \<Rightarrow> world" where
  "stopTone w =
    (if \<not> isStarted w then w
     else
       let w1 = (case cadenceTimeoutId w of
                   None \<Rightarrow> w
                 | Some i \<Rightarrow> (clearTimeout i w)\<lparr>cadenceTimeoutId := None\<rparr>);
           w2 = (case oscA w1 of None \<Rightarrow> w1 | Some i \<Rightarrow> oscStopDisconnect i w1);
           w3 = (case oscB w2 of None \<Rightarrow> w2 | Some i \<Rightarrow> oscStopDisconnect i w2);
           w4 = (case toneGain w3 of None \<Rightarrow> w3 | Some g \<Rightarrow> gainDisconnect g w3)
       in w4\<lparr>oscA := None, oscB := None, toneGain := None, isStarted := False,
              currentKey := None, trace := trace w4 @ [ToneStopped]\<rparr>)"

text \<open>
  The closure \<open>toggle\<close> of \<open>startToneForKey\<close>. \<open>cancelScheduledValues(now)\<close> and
  \<open>setValueAtTime(v, now)\<close> at the current audio time set the gate to \<open>v\<close> from now on.
\<close>

definition toggle :: "bool \<Rightarrow> nat \<Rightarrow> nat \<Rightarrow> world \<Rightarrow> world" where
  "toggle isOn onMs offMs w =
    (case audioContext w of
       None \<Rightarrow> w
     | Some c \<Rightarrow>
        (case toneGain w of
           None \<Rightarrow> w
         | Some g \<Rightarrow>
            (let w1 = w\<lparr>gains := (gains w)[g := (gains w ! g)\<lparr>gainValue := (if isOn then 1 else 0)\<rparr>]\<rparr>;
                 nextDelay = (if isOn then onMs else offMs);
                 r = setTimeout (Toggle (\<not> isOn) onMs offMs) nextDelay w1
             in (snd r)\<lparr>cadenceTimeoutId := Some (fst r)\<rparr>)))"

text \<open>
  Assigning to \<open>frequency.value\<close> converts the value to a float and throws a
  \<open>TypeError\<close> when the result is not a finite number.
\<close>

fun toFrequency :: "jsval \<Rightarrow> nat option" where
  "toFrequency (Num n) = Some n"
| "toFrequency Null = Some 0"
| "toFrequency Undefined = None"
| "toFrequency Inherited = None"

text \<open>A node as \<open>createOscillator()\<close> returns it.\<close>

definition newOscillator :: oscNode where
  "newOscillator = \<lparr>frequency = 440, oscOut = None, started = False, stopped = False\<rparr>"

text \<open>
  Lines 93 to 97 and 100 to 104: create the oscillator and store it in the field
  (\<open>isB\<close> tells which), set its frequency, connect it to the gate \<open>g\<close>, start it.
\<close>

definition startOscillator :: "bool \<Rightarrow> jsval \<Rightarrow> nat \<Rightarrow> world \<Rightarrow> world outcome" where
  "startOscillator isB v g w =
    (let i = length (oscs w);
         w1 = w\<lparr>oscs := oscs w @ [newOscillator]\<rparr>;
         w2 = (if isB then w1\<lparr>oscB := Some i\<rparr> else w1\<lparr>oscA := Some i\<rparr>)
     in case toFrequency v of
          None \<Rightarrow> Throws w2
        | Some f \<Rightarrow>
            Returns (w2\<lparr>oscs := (oscs w2)[i := newOscillator\<lparr>frequency := f, oscOut := Some g,
                                                             started := True\<rparr>]\<rparr>))"

text \<open>Lines 107 to 122: the two fields, then the cadence.\<close>

definition finishStart :: "string \<Rightarrow> toneSpec \<Rightarrow> world \<Rightarrow> world" where
  "finishStart key spec w =
    (let w1 = w\<lparr>currentKey := Some key, isStarted := True, trace := trace w @ [ToneStarted key]\<rparr>
     in case cadence spec of
          None \<Rightarrow> w1
        | Some (onMs, offMs) \<Rightarrow>
            if audioContext w1 \<noteq> None \<and> toneGain w1 \<noteq> None then toggle True onMs offMs w1 else w1)"

text \<open>Lines 88 to 122: what \<open>startToneForKey\<close> does once the previous tone is gone.\<close>

definition allocTone :: "string \<Rightarrow> toneSpec \<Rightarrow> nat \<Rightarrow> world \<Rightarrow> world outcome" where
  "allocTone key spec mg w =
    (let g = length (gains w);
         w1 = w\<lparr>gains := gains w @ [\<lparr>gainValue = 1, gainOut = Some (GainInput mg)\<rparr>],
                toneGain := Some g\<rparr>
     in andThen (startOscillator False (spec_a spec) g w1)
          (\<lambda>w2. andThen (if truthy (spec_b spec) then startOscillator True (spec_b spec) g w2
                          else Returns w2)
                   (\<lambda>w3. Returns (finishStart key spec w3))))"

text \<open>
  \<open>startToneForKey\<close>: the lookup, the audio context, the teardown of the tone that plays,
  the allocation of the new one. It returns, or throws where the allocation throws.
\<close>

definition startToneForKey :: "string \<Rightarrow> world \<Rightarrow> world outcome" where
  "startToneForKey key w =
    (case getFrequenciesForKey (dialPreset w) key of
       None \<Rightarrow> Returns w
     | Some spec \<Rightarrow>
        (let w1 = ensureContext w in
         case audioContext w1 of
           None \<Rightarrow> Returns w1
         | Some c \<Rightarrow>
            (case masterGain w1 of
               None \<Rightarrow> Returns w1
             | Some mg \<Rightarrow> allocTone key spec mg (stopTone w1))))"

subsection \<open>The page\<close>

text \<open>The dash \<open>U+2014\<close> the script shows when no key is current, as its UTF-8 bytes.\<close>

definition dash :: string where
  "dash = [CHR 0xE2, CHR 0x80, CHR 0x94]"

definition setStatus :: "status \<Rightarrow> world \<Rightarrow> world" where
  "setStatus s w = w\<lparr>trace := trace w @ [SetStatus s]\<rparr>"

definition setCurrentKey :: "string \<Rightarrow> world \<Rightarrow> world" where
  "setCurrentKey txt w = w\<lparr>trace := trace w @ [SetCurrentKey (if txt = [] then dash else txt)]\<rparr>"

definition appendLog :: "string \<Rightarrow> world \<Rightarrow> world" where
  "appendLog k w = w\<lparr>trace := trace w @ [AppendLog k]\<rparr>"

definition addActive :: "string \<Rightarrow> world \<Rightarrow> world" where
  "addActive k w = w\<lparr>trace := trace w @ [AddActive k]\<rparr>"

definition removeActive :: "string \<Rightarrow> world \<Rightarrow> world" where
  "removeActive k w = w\<lparr>trace := trace w @ [RemoveActive k]\<rparr>"

subsection \<open>The sequence player\<close>

definition cancelSequencePlayback :: "world \<Rightarrow> world" where
  "cancelSequencePlayback w =
    (let w1 = (case seqTimer w of
                 None \<Rightarrow> w
               | Some i \<Rightarrow> (clearTimeout i w)\<lparr>seqTimer := None\<rparr>)
     in w1\<lparr>isSeqPlaying := False\<rparr>)"

text \<open>The closure \<open>playOnce\<close> of \<open>scheduleNextFromBuffer\<close>, for the key \<open>k\<close>.\<close>

definition playOnce :: "string \<Rightarrow> world \<Rightarrow> world outcome" where
  "playOnce k w =
    andThen (startToneForKey k w)
      (\<lambda>w1. let w2 = setStatus NowPlaying w1
             in Returns (snd (setTimeout (PlayOnceTimeout k) (autoDurationMs w2) w2)))"

text \<open>Lines 242 to 263: what \<open>scheduleNextFromBuffer\<close> does with a key it accepts.\<close>

definition playKey :: "string \<Rightarrow> world \<Rightarrow> world outcome" where
  "playKey k w =
    andThen (playOnce k (addActive k (appendLog k (setCurrentKey k w))))
      (\<lambda>w1. Returns (snd (setTimeout (RemoveHighlight k) (autoDurationMs w1 + 10) w1)))"

function scheduleNextFromBuffer :: "world \<Rightarrow> world outcome" where
  "scheduleNextFromBuffer w =
    (if \<not> isSeqPlaying w then Returns w
     else
       (case seqBuffer w of
          [] \<Rightarrow> Returns (setStatus Waiting (w\<lparr>isSeqPlaying := False\<rparr>))
        | k # rest \<Rightarrow>
            if k = [] then scheduleNextFromBuffer (w\<lparr>seqBuffer := rest\<rparr>)
            else if \<not> validKeys_has k then scheduleNextFromBuffer (w\<lparr>seqBuffer := rest\<rparr>)
            else playKey k (w\<lparr>seqBuffer := rest\<rparr>)))"
  by pat_completeness auto
termination
  by (relation "measure (\<lambda>w. length (seqBuffer w))") auto

declare scheduleNextFromBuffer.simps [simp del]

text \<open>The function \<open>playOnce\<close> hands to \<open>setTimeout\<close>.\<close>

definition playOnceTimeout :: "string \<Rightarrow> world \<Rightarrow> world" where
  "playOnceTimeout localK w =
    (let w1 = (if currentKey w = Some localK then setCurrentKey dash (stopTone w) else w);
         r = setTimeout ScheduleNext (gapMs w1) w1
     in (snd r)\<lparr>seqTimer := Some (fst r)\<rparr>)"

text \<open>
  \<open>startSequencePlaybackFromText\<close>, with the value of the input field as its argument.
  \<open>split('')\<close> makes one string of length one of every character.
\<close>

definition startSequencePlaybackFromText :: "string \<Rightarrow> world \<Rightarrow> world outcome" where
  "startSequencePlaybackFromText raw w =
    (let input = take 128 raw;
         w1 = w\<lparr>seqBuffer := map (\<lambda>c. [c]) input\<rparr>
     in if length (seqBuffer w1) = 0 then Returns w1
        else scheduleNextFromBuffer ((cancelSequencePlayback w1)\<lparr>isSeqPlaying := True\<rparr>))"

subsection \<open>Keys pressed by hand\<close>

definition triggerKeyDown :: "string \<Rightarrow> world \<Rightarrow> world outcome" where
  "triggerKeyDown k w =
    (let w1 = appendLog k (setCurrentKey k (addActive k w)) in
     if playMode w1 = Hold then startToneForKey k w1
     else andThen (startToneForKey k w1)
            (\<lambda>w2. let w3 = setStatus NowPlaying w2
                   in Returns (snd (setTimeout (AutoStop k) (autoDurationMs w3) w3))))"

text \<open>The function \<open>triggerKeyDown\<close> hands to \<open>setTimeout\<close> in auto mode.\<close>

definition autoStop :: "string \<Rightarrow> world \<Rightarrow> world" where
  "autoStop localKey w =
    (if currentKey w = Some localKey
     then removeActive localKey
            (setStatus (AutoHint (autoDurationMs w)) (setCurrentKey dash (stopTone w)))
     else w)"

definition triggerKeyUp :: "string \<Rightarrow> world \<Rightarrow> world" where
  "triggerKeyUp k w =
    (let w1 = removeActive k w in
     if playMode w1 = Hold \<and> currentKey w1 = Some k
     then setStatus Waiting (setCurrentKey dash (stopTone w1))
     else w1)"

subsection \<open>The event loop\<close>

fun runCallback :: "callback \<Rightarrow> world \<Rightarrow> world outcome" where
  "runCallback (Toggle isOn onMs offMs) w = Returns (toggle isOn onMs offMs w)"
| "runCallback (PlayOnceTimeout k) w = Returns (playOnceTimeout k w)"
| "runCallback ScheduleNext w = scheduleNextFromBuffer w"
| "runCallback (RemoveHighlight k) w = Returns (removeActive k w)"
| "runCallback (AutoStop k) w = Returns (autoStop k w)"

text \<open>
  The timer that fires next: the one due first, and among those due together the one
  set first.
\<close>

fun earliest :: "timer list \<Rightarrow> timer option" where
  "earliest [] = None"
| "earliest (t # ts) =
    (case earliest ts of
       None \<Rightarrow> Some t
     | Some u \<Rightarrow> if due u < due t then Some u else Some t)"

text \<open>
  A timer fires: it leaves the queue, the clock is at its due time (or later, when the
  clock has passed it already), its function runs. An exception it throws ends it there.
\<close>

definition fire :: "timer \<Rightarrow> world \<Rightarrow> world" where
  "fire t w =
    worldOf (runCallback (action t)
      (w\<lparr>timers := remove1 t (timers w), clock := max (clock w) (due t)\<rparr>))"

definition tick :: "world \<Rightarrow> world" where
  "tick w = (case earliest (timers w) of None \<Rightarrow> w | Some t \<Rightarrow> fire t w)"

text \<open>
  What can happen to the page. Each listener of the script is one of these, or (for the
  keyboard and the pointer) a few of them in a row: \<open>keydown\<close> is
  \<open>CancelSequencePlayback\<close> when a sequence plays, then \<open>TriggerKeyDown\<close>; \<open>keyup\<close>
  and the pointer's release are \<open>TriggerKeyUp\<close>. \<open>StartTone\<close> and \<open>StopTone\<close> call the
  engine directly. \<open>Tick\<close> lets the next timer fire, \<open>Elapse\<close> lets time pass.
\<close>

datatype event =
    StartTone string
  | StopTone
  | VolumeInput real
  | PresetChange preset
  | ModeChange playMode
  | DurationInput nat
  | GapInput nat
  | TriggerKeyDown string
  | TriggerKeyUp string
  | PlaySeqClick string
  | StopSeqClick
  | CancelSequencePlayback
  | Tick
  | Elapse nat

fun handle :: "event \<Rightarrow> world \<Rightarrow> world" where
  "handle (StartTone k) w = worldOf (startToneForKey k w)"
| "handle StopTone w = stopTone w"
| "handle (VolumeInput v) w = setVolume v w"
| "handle (PresetChange p) w =
    (let w1 = setDialPreset p w in
     if currentKey w1 = Some ''*'' \<and> isStarted w1 then worldOf (startToneForKey ''*'' w1) else w1)"
| "handle (ModeChange m) w =
    (let w1 = w\<lparr>playMode := m\<rparr> in
     setStatus (if m = Hold then HoldHint else AutoHint (autoDurationMs w1)) w1)"
| "handle (DurationInput n) w =
    (let w1 = w\<lparr>autoDurationMs := n\<rparr> in
     if playMode w1 = Auto then setStatus (AutoHint n) w1 else w1)"
| "handle (GapInput n) w = w\<lparr>gapMs := n\<rparr>"
| "handle (TriggerKeyDown k) w = worldOf (triggerKeyDown k w)"
| "handle (TriggerKeyUp k) w = triggerKeyUp k w"
| "handle (PlaySeqClick raw) w = worldOf (startSequencePlaybackFromText raw w)"
| "handle StopSeqClick w = setStatus Halted (cancelSequencePlayback w)"
| "handle CancelSequencePlayback w = cancelSequencePlayback w"
| "handle Tick w = tick w"
| "handle (Elapse n) w = w\<lparr>clock := clock w + n\<rparr>"

text \<open>The states the page can be in: those a list of events leads to from the start.\<close>

inductive reachable :: "world \<Rightarrow> bool" where
  start: "reachable (initial d g)"
| step: "reachable w \<Longrightarrow> reachable (handle e w)"

text \<open>\<open>run n\<close> lets \<open>n\<close> timers fire, one after the other.\<close>

fun run :: "nat \<Rightarrow> world \<Rightarrow> world" where
  "run 0 w = w"
| "run (Suc n) w = run n (tick w)"

subsection \<open>What the claims speak of\<close>

fun isToggle :: "callback \<Rightarrow> bool" where
  "isToggle (Toggle isOn onMs offMs) = True"
| "isToggle (PlayOnceTimeout k) = False"
| "isToggle ScheduleNext = False"
| "isToggle (RemoveHighlight k) = False"
| "isToggle (AutoStop k) = False"

text \<open>The oscillators that sound, and the oscillators the engine's two fields hold.\<close>

definition aliveOscs :: "world \<Rightarrow> nat list" where
  "aliveOscs w = filter (\<lambda>i. alive (oscs w ! i)) [0..<length (oscs w)]"

definition toneOscs :: "world \<Rightarrow> nat list" where
  "toneOscs w =
    (case oscA w of None \<Rightarrow> [] | Some i \<Rightarrow> [i]) @ (case oscB w of None \<Rightarrow> [] | Some i \<Rightarrow> [i])"

text \<open>
  The invariant of the engine: not started means no current key, no current key means
  no cadence handle, every oscillator that sounds is one of the current tone, and none
  sounds when the engine is not started.
\<close>

definition engineInvariant :: "world \<Rightarrow> bool" where
  "engineInvariant w =
    ((\<not> isStarted w \<longrightarrow> currentKey w = None)
     \<and> (currentKey w = None \<longrightarrow> cadenceTimeoutId w = None)
     \<and> set (aliveOscs w) \<subseteq> set (toneOscs w)
     \<and> (\<not> isStarted w \<longrightarrow> aliveOscs w = []))"

text \<open>
  What holds of the timer queue besides: handles are given out once, in increasing
  order, and a pending cadence timer is the one whose handle the engine holds.
\<close>

definition timersOk :: "world \<Rightarrow> bool" where
  "timersOk w =
    (distinct (map timerId (timers w))
     \<and> (\<forall>t \<in> set (timers w). timerId t < nextTimerId w)
     \<and> (\<forall>t \<in> set (timers w). isToggle (action t) \<longrightarrow> cadenceTimeoutId w = Some (timerId t)))"

text \<open>
  The audio context comes with its master gain, a tone that plays has its context and
  its gate, and the gate the engine holds is a node that exists.
\<close>

definition contextOk :: "world \<Rightarrow> bool" where
  "contextOk w =
    ((audioContext w \<noteq> None \<longrightarrow> masterGain w \<noteq> None)
     \<and> (isStarted w \<longrightarrow> audioContext w \<noteq> None \<and> toneGain w \<noteq> None)
     \<and> (\<forall>g. toneGain w = Some g \<longrightarrow> g < length (gains w)))"

definition consistent :: "world \<Rightarrow> bool" where
  "consistent w = (engineInvariant w \<and> timersOk w \<and> contextOk w)"

text \<open>No cadence timer is pending.\<close>

definition noToggle :: "world \<Rightarrow> bool" where
  "noToggle w = (\<forall>t \<in> set (timers w). \<not> isToggle (action t))"

text \<open>
  The two oscillator steps of \<open>stopTone\<close>, and what the lookup guarantees of a
  specification: when its first frequency is a number, its second is a number or absent.
\<close>

definition stopOscs :: "world \<Rightarrow> world" where
  "stopOscs w =
    (let w2 = (case oscA w of None \<Rightarrow> w | Some i \<Rightarrow> oscStopDisconnect i w)
     in (case oscB w2 of None \<Rightarrow> w2 | Some i \<Rightarrow> oscStopDisconnect i w2))"

definition specOk :: "toneSpec \<Rightarrow> bool" where
  "specOk spec =
    (toFrequency (spec_a spec) = None \<or> \<not> truthy (spec_b spec)
     \<or> toFrequency (spec_b spec) \<noteq> None)"

text \<open>
  The gate of the current tone, the pending cadence timer, and the cadence left to
  itself: \<open>cadenceRun n\<close> lets the pending cadence timer fire \<open>n\<close> times, each time when
  it is due.
\<close>

definition gate :: "world \<Rightarrow> real option" where
  "gate w =
    (case toneGain w of
       None \<Rightarrow> None
     | Some g \<Rightarrow> if g < length (gains w) then Some (gainValue (gains w ! g)) else None)"

definition cadenceTimer :: "world \<Rightarrow> timer option" where
  "cadenceTimer w =
    (case cadenceTimeoutId w of
       None \<Rightarrow> None
     | Some i \<Rightarrow> find (\<lambda>t. timerId t = i) (timers w))"

definition fireCadence :: "world \<Rightarrow> world" where
  "fireCadence w = (case cadenceTimer w of None \<Rightarrow> w | Some t \<Rightarrow> fire t w)"

fun cadenceRun :: "nat \<Rightarrow> world \<Rightarrow> world" where
  "cadenceRun 0 w = w"
| "cadenceRun (Suc n) w = cadenceRun n (fireCadence w)"

text \<open>
  What was written to the trace between a state and a later one, and the relation of a
  state to a later one that the events keep: the trace has only grown, a cadence timer
  that was pending is still pending unless a tone was stopped in between, the handles
  given out since are new, and the handle the sequence player holds is still that of a
  drain step.
\<close>

definition since :: "world \<Rightarrow> world \<Rightarrow> effect list" where
  "since w v = drop (length (trace w)) (trace v)"

definition seqTimerOk :: "world \<Rightarrow> bool" where
  "seqTimerOk w =
    (case seqTimer w of
       None \<Rightarrow> True
     | Some i \<Rightarrow> i < nextTimerId w
         \<and> (\<forall>t \<in> set (timers w). timerId t = i \<longrightarrow> action t = ScheduleNext))"

definition follows :: "world \<Rightarrow> world \<Rightarrow> bool" where
  "follows w v =
    (take (length (trace w)) (trace v) = trace w
     \<and> (\<forall>t \<in> set (timers w). isToggle (action t) \<longrightarrow>
           t \<in> set (timers v) \<or> ToneStopped \<in> set (since w v))
     \<and> nextTimerId w \<le> nextTimerId v
     \<and> (\<forall>t \<in> set (timers v). t \<in> set (timers w) \<or> nextTimerId w \<le> timerId t)
     \<and> (seqTimerOk w \<longrightarrow> seqTimerOk v))"

text \<open>
  What a trace tells: the keys whose tones were started, the keys written to the input
  log (the script writes a key there exactly when it announces that the key starts), and
  how often the status was set to waiting.
\<close>

fun startedKey :: "effect \<Rightarrow> string list" where
  "startedKey (ToneStarted k) = [k]"
| "startedKey (SetStatus s) = []"
| "startedKey (SetCurrentKey k) = []"
| "startedKey (AppendLog k) = []"
| "startedKey (AddActive k) = []"
| "startedKey (RemoveActive k) = []"
| "startedKey ToneStopped = []"

definition toneStarts :: "effect list \<Rightarrow> string list" where
  "toneStarts tr = concat (map startedKey tr)"

fun loggedKey :: "effect \<Rightarrow> string list" where
  "loggedKey (AppendLog k) = [k]"
| "loggedKey (SetStatus s) = []"
| "loggedKey (SetCurrentKey k) = []"
| "loggedKey (ToneStarted k) = []"
| "loggedKey (AddActive k) = []"
| "loggedKey (RemoveActive k) = []"
| "loggedKey ToneStopped = []"

definition keysLogged :: "effect list \<Rightarrow> string list" where
  "keysLogged tr = concat (map loggedKey tr)"

definition idleReports :: "effect list \<Rightarrow> nat" where
  "idleReports tr = count_list tr (SetStatus Waiting)"



text \<open>The state after a list of events, the first of the list first.\<close>

fun after :: "event list \<Rightarrow> world \<Rightarrow> world" where
  "after [] w = w"
| "after (e # es) w = after es (handle e w)"




text \<open>
  What holds of the cadence in every state besides: the two delays of a cadence timer are
  positive, and the handle in \<open>cadenceTimeoutId\<close> is one that was given out and names no
  pending timer but a cadence timer.
\<close>

fun positiveCadence :: "callback \<Rightarrow> bool" where
  "positiveCadence (Toggle isOn onMs offMs) = (0 < onMs \<and> 0 < offMs)"
| "positiveCadence (PlayOnceTimeout k) = True"
| "positiveCadence ScheduleNext = True"
| "positiveCadence (RemoveHighlight k) = True"
| "positiveCadence (AutoStop k) = True"

definition cadenceOk :: "world \<Rightarrow> bool" where
  "cadenceOk w =
    ((\<forall>t \<in> set (timers w). positiveCadence (action t))
     \<and> (case cadenceTimeoutId w of
          None \<Rightarrow> True
        | Some i \<Rightarrow> i < nextTimerId w
            \<and> (\<forall>t \<in> set (timers w). timerId t = i \<longrightarrow> isToggle (action t))))"







section \<open>Properties\<close>

subsection \<open>The frequency lookup\<close>

lemmas lookup_defs =
  getFrequenciesForKey_def getProp_def dtmfLow_def dtmfHigh_def objectPrototypeNames_def

text \<open>
  Claim C1, as the code has it. For each of the digit keys and \<open>#\<close>, under either preset,
  the lookup returns the standard DTMF pair (rows 697, 770, 852 and 941 Hz, columns 1209,
  1336 and 1477 Hz), not continuous and with no cadence; the eleven pairs are pairwise
  distinct; \<open>#\<close> has the high frequency of the column of \<open>9\<close> (1477 Hz) and \<open>0\<close> that of
  the column of \<open>8\<close> (1336 Hz).
\<close>

theorem dtmf_pairs_standard:
  "map (getFrequenciesForKey dp) dtmfKeys =
     map (\<lambda>(l, h). Some \<lparr>spec_a = Num l, spec_b = Num h, isContinuous = False, cadence = None\<rparr>)
       [(697, 1209), (697, 1336), (697, 1477),
        (770, 1209), (770, 1336), (770, 1477),
        (852, 1209), (852, 1336), (852, 1477),
        (941, 1336), (941, 1477)]
   \<and> distinct (map (pairOf dp) dtmfKeys)
   \<and> map_option spec_b (getFrequenciesForKey dp ''#'')
       = map_option spec_b (getFrequenciesForKey dp ''9'')
   \<and> map_option spec_b (getFrequenciesForKey dp ''0'')
       = map_option spec_b (getFrequenciesForKey dp ''8'')"
  by (simp add: pairOf_def lookup_defs dtmfKeys_def)

theorem dtmf_pairs_standard_witness:
  "map (pairOf US) dtmfKeys =
     map (\<lambda>(l, h). Some (Num l, Num h))
       [(697, 1209), (697, 1336), (697, 1477),
        (770, 1209), (770, 1336), (770, 1477),
        (852, 1209), (852, 1336), (852, 1477),
        (941, 1336), (941, 1477)]
   \<and> distinct (map (pairOf US) dtmfKeys)"
  using dtmf_pairs_standard [of US] by (simp add: pairOf_def dtmfKeys_def)

text \<open>
  Claim C1 as it is written has \<open>0\<close> share the high frequency of the column of \<open>9\<close>.
  The table gives \<open>0\<close> 1336 Hz and \<open>9\<close> 1477 Hz.
\<close>

theorem zero_not_in_column_of_nine:
  "map_option spec_b (getFrequenciesForKey US ''0'') = Some (Num 1336)
   \<and> map_option spec_b (getFrequenciesForKey US ''9'') = Some (Num 1477)
   \<and> map_option spec_b (getFrequenciesForKey US ''0'')
       \<noteq> map_option spec_b (getFrequenciesForKey US ''9'')"
  by (simp add: lookup_defs)

text \<open>
  Claim C2. The lookup for \<open>*\<close> is the dial tone: 350 Hz with 440 Hz under the preset
  \<open>us\<close>, 400 Hz alone under \<open>jp\<close>, continuous in both and different from one another.
  The lookup for \<open>/\<close> is 480 Hz with 620 Hz, not continuous, with the cadence 250 ms on
  and 250 ms off, whatever the preset.
\<close>

theorem dial_tone_and_disconnect:
  "getFrequenciesForKey US ''*''
     = Some \<lparr>spec_a = Num 350, spec_b = Num 440, isContinuous = True, cadence = None\<rparr>
   \<and> getFrequenciesForKey JP ''*''
     = Some \<lparr>spec_a = Num 400, spec_b = Null, isContinuous = True, cadence = None\<rparr>
   \<and> getFrequenciesForKey US ''*'' \<noteq> getFrequenciesForKey JP ''*''
   \<and> getFrequenciesForKey dp ''/''
     = Some \<lparr>spec_a = Num 480, spec_b = Num 620, isContinuous = False,
             cadence = Some (250, 250)\<rparr>"
  by (simp add: getFrequenciesForKey_def)

theorem dial_tone_and_disconnect_witness:
  "map_option isContinuous (getFrequenciesForKey US ''*'') = Some True
   \<and> map_option isContinuous (getFrequenciesForKey JP ''*'') = Some True
   \<and> map_option cadence (getFrequenciesForKey JP ''/'') = Some (Some (250, 250))"
  using dial_tone_and_disconnect [of JP] by simp

text \<open>
  A key that is neither in \<open>validKeys\<close> nor the name of a member of \<open>Object.prototype\<close>
  is in neither table: the lookup returns nothing and \<open>startToneForKey\<close> returns at its
  first line, with the state as it was.
\<close>

lemma lookup_unknown:
  "key \<notin> set validKeys \<Longrightarrow> key \<notin> set objectPrototypeNames
    \<Longrightarrow> getFrequenciesForKey dp key = None"
  by (simp add: lookup_defs validKeys_def)

lemma unknown_key_ignored:
  assumes "\<not> validKeys_has key" and "key \<notin> set objectPrototypeNames"
  shows "getFrequenciesForKey dp key = None \<and> startToneForKey key w = Returns w"
proof -
  have none: "getFrequenciesForKey p key = None" for p
    using assms lookup_unknown [of key p] by (simp add: validKeys_has_def)
  then show ?thesis
    by (simp add: startToneForKey_def)
qed

text \<open>
  A key that names a member of \<open>Object.prototype\<close> finds that member in both tables: both
  reads are truthy, and the lookup returns a specification whose frequencies are not
  numbers.
\<close>

lemma lookup_inherited_name:
  "getFrequenciesForKey dp ''constructor''
     = Some \<lparr>spec_a = Inherited, spec_b = Inherited, isContinuous = False, cadence = None\<rparr>"
  by (simp add: lookup_defs)

text \<open>
  Claim C9 has the lookup return nothing for every key outside the recognised set, and
  \<open>startToneForKey\<close> on such a key return with the whole state as it was. The key
  \<open>constructor\<close> is outside the recognised set, and the lookup returns a specification
  for it under either preset. With the tone of \<open>5\<close> playing,
  \<open>startToneForKey\<close> on it gets past the first line, tears the tone of \<open>5\<close> down
  (nothing sounds afterwards, no key is current, the teardown is in the trace) and throws
  at the assignment of the first frequency, leaving behind a gate and an oscillator that was
  never started. The page reaches this through \<open>triggerKeyDown\<close>, which the pointer
  listener calls with the \<open>data-key\<close> of the element pressed, whatever it is.
\<close>

theorem inherited_name_not_ignored:
  "\<not> validKeys_has ''constructor''
   \<and> getFrequenciesForKey US ''constructor''
       = Some \<lparr>spec_a = Inherited, spec_b = Inherited, isContinuous = False, cadence = None\<rparr>
   \<and> getFrequenciesForKey JP ''constructor'' \<noteq> None
   \<and> currentKey (worldOf (startToneForKey ''5'' (initial 120 40))) = Some ''5''
   \<and> aliveOscs (worldOf (startToneForKey ''5'' (initial 120 40))) = [0, 1]
   \<and> startToneForKey ''constructor'' (worldOf (startToneForKey ''5'' (initial 120 40)))
       = Throws (worldOf (startToneForKey ''constructor''
                   (worldOf (startToneForKey ''5'' (initial 120 40)))))
   \<and> startToneForKey ''constructor'' (worldOf (startToneForKey ''5'' (initial 120 40)))
       \<noteq> Returns (worldOf (startToneForKey ''5'' (initial 120 40)))
   \<and> currentKey (worldOf (startToneForKey ''constructor''
         (worldOf (startToneForKey ''5'' (initial 120 40))))) = None
   \<and> \<not> isStarted (worldOf (startToneForKey ''constructor''
         (worldOf (startToneForKey ''5'' (initial 120 40)))))
   \<and> aliveOscs (worldOf (startToneForKey ''constructor''
         (worldOf (startToneForKey ''5'' (initial 120 40))))) = []
   \<and> trace (worldOf (startToneForKey ''constructor''
         (worldOf (startToneForKey ''5'' (initial 120 40))))) = [ToneStarted ''5'', ToneStopped]
   \<and> length (oscs (worldOf (startToneForKey ''constructor''
         (worldOf (startToneForKey ''5'' (initial 120 40)))))) = 3
   \<and> trace (handle (TriggerKeyDown ''constructor'')
         (worldOf (startToneForKey ''5'' (initial 120 40))))
       = [ToneStarted ''5'', AddActive ''constructor'', SetCurrentKey ''constructor'',
          AppendLog ''constructor'', ToneStopped]
   \<and> \<not> isStarted (handle (TriggerKeyDown ''constructor'')
         (worldOf (startToneForKey ''5'' (initial 120 40))))"
  by (simp add: validKeys_has_def validKeys_def)
    (simp add: startToneForKey_def ensureContext_def stopTone_def allocTone_def
      startOscillator_def finishStart_def clearTimeout_def oscStopDisconnect_def
      gainDisconnect_def newOscillator_def Let_def lookup_defs initial_def
      aliveOscs_def alive_def upt_conv_Cons triggerKeyDown_def
      setCurrentKey_def appendLog_def addActive_def)

theorem inherited_name_not_ignored_witness:
  "getFrequenciesForKey US ''constructor'' \<noteq> None
   \<and> isStarted (worldOf (startToneForKey ''5'' (initial 120 40)))
   \<and> worldOf (startToneForKey ''constructor'' (worldOf (startToneForKey ''5'' (initial 120 40))))
       \<noteq> worldOf (startToneForKey ''5'' (initial 120 40))
   \<and> startToneForKey ''constructor'' (worldOf (startToneForKey ''5'' (initial 120 40)))
       \<noteq> Returns (worldOf (startToneForKey ''constructor''
                    (worldOf (startToneForKey ''5'' (initial 120 40)))))"
proof -
  note th = inherited_name_not_ignored
  from th have key: "currentKey (worldOf (startToneForKey ''5'' (initial 120 40))) = Some ''5''"
    "currentKey (worldOf (startToneForKey ''constructor''
         (worldOf (startToneForKey ''5'' (initial 120 40))))) = None"
    by simp_all
  then have changed:
    "worldOf (startToneForKey ''constructor'' (worldOf (startToneForKey ''5'' (initial 120 40))))
       \<noteq> worldOf (startToneForKey ''5'' (initial 120 40))"
    by auto
  from th obtain v where
    "startToneForKey ''constructor'' (worldOf (startToneForKey ''5'' (initial 120 40))) = Throws v"
    by blast
  then have thrown:
    "startToneForKey ''constructor'' (worldOf (startToneForKey ''5'' (initial 120 40)))
       \<noteq> Returns (worldOf (startToneForKey ''constructor''
                    (worldOf (startToneForKey ''5'' (initial 120 40)))))"
    by simp
  have started: "isStarted (worldOf (startToneForKey ''5'' (initial 120 40)))"
    by (simp add: startToneForKey_def lookup_defs initial_def ensureContext_def stopTone_def
        allocTone_def startOscillator_def finishStart_def Let_def)
  from th have found: "getFrequenciesForKey US ''constructor'' \<noteq> None" by simp
  show ?thesis
    by (intro conjI found started changed thrown)
qed

subsection \<open>Evaluating the model\<close>

lemmas engine_defs =
  startToneForKey_def ensureContext_def stopTone_def allocTone_def startOscillator_def
  finishStart_def toggle_def setTimeout_def clearTimeout_def oscStopDisconnect_def
  gainDisconnect_def newOscillator_def Let_def

lemmas page_defs =
  setStatus_def setCurrentKey_def appendLog_def addActive_def removeActive_def

lemmas player_defs =
  startSequencePlaybackFromText_def cancelSequencePlayback_def scheduleNextFromBuffer.simps
  playKey_def playOnce_def playOnceTimeout_def validKeys_has_def validKeys_def
  tick_def fire_def

lemma run_numeral: "run n w = (if n = 0 then w else run (n - 1) (tick w))"
  by (cases n) simp_all

text \<open>The state with the disconnect tone playing, started from the initial state.\<close>

lemma disconnect_tone_playing:
  "worldOf (startToneForKey ''/'' (initial 120 40)) =
    \<lparr>audioContext = Some Running, masterGain = Some 0, toneGain = Some 1,
     oscA = Some 0, oscB = Some 1, currentKey = Some ''/'', isStarted = True,
     masterVolume = 3 / 10, cadenceTimeoutId = Some 1, dialPreset = US,
     playMode = Hold, autoDurationMs = 120, gapMs = 40, seqTimer = None,
     seqBuffer = [], isSeqPlaying = False,
     gains = [\<lparr>gainValue = 3 / 10, gainOut = Some Destination\<rparr>,
              \<lparr>gainValue = 1, gainOut = Some (GainInput 0)\<rparr>],
     oscs = [\<lparr>frequency = 480, oscOut = Some 1, started = True, stopped = False\<rparr>,
             \<lparr>frequency = 620, oscOut = Some 1, started = True, stopped = False\<rparr>],
     timers = [\<lparr>timerId = 1, due = 250, action = Toggle False 250 250\<rparr>],
     clock = 0, nextTimerId = 2, trace = [ToneStarted ''/'']\<rparr>"
  by (simp add: engine_defs lookup_defs initial_def)

subsection \<open>Volume\<close>

lemma update_again: "xs[i := f (xs[i := f (xs ! i)] ! i)] = xs[i := f (f (xs ! i))]"
  by (cases "i < length xs") (simp_all add: list_update_beyond)

text \<open>
  Claim C8 as it is written has \<open>setVolume\<close> clamp its argument to the range from 0 to 1.
  The function stores what it is given: the volume 2 stays 2.
\<close>

theorem setVolume_does_not_clamp:
  "masterVolume (setVolume 2 (initial 120 40)) = 2
   \<and> \<not> masterVolume (setVolume 2 (initial 120 40)) \<le> 1"
  by (simp add: setVolume_def initial_def)

text \<open>
  Claim C8, as the code has it. \<open>setVolume v\<close> stores \<open>v\<close> unchanged as the master
  volume; when the master gain node exists it sets that node's gain to \<open>v\<close> and leaves
  every other gain node, the gate of the current tone among them, as it was; when the
  node does not exist yet, nothing else changes. Applying it twice with the same value
  gives the state that applying it once gives.
\<close>

theorem setVolume_master_gain:
  "masterVolume (setVolume v w) = v
   \<and> setVolume v (setVolume v w) = setVolume v w
   \<and> (masterGain w = None \<longrightarrow> setVolume v w = w\<lparr>masterVolume := v\<rparr>)
   \<and> (\<forall>mg. masterGain w = Some mg \<and> mg < length (gains w) \<longrightarrow>
          gainValue (gains (setVolume v w) ! mg) = v
          \<and> (\<forall>g. g \<noteq> mg \<longrightarrow> gains (setVolume v w) ! g = gains w ! g))"
  by (cases "masterGain w") (auto simp: setVolume_def Let_def update_again)

theorem setVolume_master_gain_witness:
  "masterGain (worldOf (startToneForKey ''/'' (initial 120 40))) = Some 0
   \<and> 0 < length (gains (worldOf (startToneForKey ''/'' (initial 120 40))))
   \<and> toneGain (worldOf (startToneForKey ''/'' (initial 120 40))) = Some 1
   \<and> masterVolume (setVolume (1 / 2) (worldOf (startToneForKey ''/'' (initial 120 40)))) = 1 / 2
   \<and> gainValue (gains (setVolume (1 / 2) (worldOf (startToneForKey ''/'' (initial 120 40)))) ! 0)
       = 1 / 2
   \<and> gains (setVolume (1 / 2) (worldOf (startToneForKey ''/'' (initial 120 40)))) ! 1
       = gains (worldOf (startToneForKey ''/'' (initial 120 40))) ! 1
   \<and> masterGain (initial 120 40) = None
   \<and> setVolume (1 / 2) (initial 120 40) = (initial 120 40)\<lparr>masterVolume := 1 / 2\<rparr>"
  using setVolume_master_gain [of "1 / 2" "worldOf (startToneForKey ''/'' (initial 120 40))"]
    setVolume_master_gain [of "1 / 2" "initial 120 40"]
  by (simp add: disconnect_tone_playing) (simp add: initial_def)

subsection \<open>Stopping\<close>

text \<open>
  Claim C4. When no tone is playing \<open>stopTone\<close> changes nothing at all. When one is, it
  takes the pending cadence timer out of the queue and forgets its handle, stops and
  disconnects the oscillators the fields \<open>oscA\<close> and \<open>oscB\<close> hold, disconnects the gate,
  and clears the three fields, the current key and the flag. A second \<open>stopTone\<close> right
  after the first changes nothing.
\<close>

theorem stopTone_idempotent:
  "(\<not> isStarted w \<longrightarrow> stopTone w = w)
   \<and> (isStarted w \<longrightarrow>
        cadenceTimeoutId (stopTone w) = None
      \<and> (\<forall>i. cadenceTimeoutId w = Some i \<longrightarrow> i \<notin> timerId ` set (timers (stopTone w)))
      \<and> (\<forall>i. (oscA w = Some i \<or> oscB w = Some i) \<and> i < length (oscs w) \<longrightarrow>
             \<not> alive (oscs (stopTone w) ! i) \<and> oscOut (oscs (stopTone w) ! i) = None)
      \<and> (\<forall>g. toneGain w = Some g \<and> g < length (gains w) \<longrightarrow>
             gainOut (gains (stopTone w) ! g) = None)
      \<and> oscA (stopTone w) = None \<and> oscB (stopTone w) = None \<and> toneGain (stopTone w) = None
      \<and> currentKey (stopTone w) = None \<and> \<not> isStarted (stopTone w))
   \<and> stopTone (stopTone w) = stopTone w"
proof -
  have idle: "\<not> isStarted w \<Longrightarrow> stopTone w = w"
    by (simp add: stopTone_def)
  have fields: "isStarted w \<Longrightarrow>
      cadenceTimeoutId (stopTone w) = None
      \<and> (\<forall>i. cadenceTimeoutId w = Some i \<longrightarrow> i \<notin> timerId ` set (timers (stopTone w)))
      \<and> oscA (stopTone w) = None \<and> oscB (stopTone w) = None \<and> toneGain (stopTone w) = None
      \<and> currentKey (stopTone w) = None \<and> \<not> isStarted (stopTone w)"
    by (auto simp: stopTone_def Let_def clearTimeout_def oscStopDisconnect_def
        gainDisconnect_def split: option.splits)
  have nodes: "isStarted w \<Longrightarrow> (oscA w = Some i \<or> oscB w = Some i) \<Longrightarrow> i < length (oscs w)
      \<Longrightarrow> \<not> alive (oscs (stopTone w) ! i) \<and> oscOut (oscs (stopTone w) ! i) = None" for i
    by (auto simp: stopTone_def Let_def clearTimeout_def oscStopDisconnect_def
        gainDisconnect_def alive_def nth_list_update split: option.splits)
  have gate: "isStarted w \<Longrightarrow> toneGain w = Some g \<Longrightarrow> g < length (gains w)
      \<Longrightarrow> gainOut (gains (stopTone w) ! g) = None" for g
    by (auto simp: stopTone_def Let_def clearTimeout_def oscStopDisconnect_def
        gainDisconnect_def split: option.splits)
  have twice: "stopTone (stopTone w) = stopTone w"
    by (simp add: stopTone_def Let_def)
  from idle fields nodes gate twice show ?thesis
    by blast
qed

theorem stopTone_idempotent_witness:
  "isStarted (worldOf (startToneForKey ''/'' (initial 120 40)))
   \<and> cadenceTimeoutId (worldOf (startToneForKey ''/'' (initial 120 40))) = Some 1
   \<and> timers (stopTone (worldOf (startToneForKey ''/'' (initial 120 40)))) = []
   \<and> \<not> alive (oscs (stopTone (worldOf (startToneForKey ''/'' (initial 120 40)))) ! 0)
   \<and> \<not> alive (oscs (stopTone (worldOf (startToneForKey ''/'' (initial 120 40)))) ! 1)
   \<and> gainOut (gains (stopTone (worldOf (startToneForKey ''/'' (initial 120 40)))) ! 1) = None
   \<and> currentKey (stopTone (worldOf (startToneForKey ''/'' (initial 120 40)))) = None
   \<and> \<not> isStarted (stopTone (worldOf (startToneForKey ''/'' (initial 120 40))))
   \<and> stopTone (stopTone (worldOf (startToneForKey ''/'' (initial 120 40))))
       = stopTone (worldOf (startToneForKey ''/'' (initial 120 40)))
   \<and> \<not> isStarted (initial 120 40)
   \<and> stopTone (initial 120 40) = initial 120 40"
  using stopTone_idempotent [of "worldOf (startToneForKey ''/'' (initial 120 40))"]
    stopTone_idempotent [of "initial 120 40"]
  by (simp add: disconnect_tone_playing) (simp add: initial_def engine_defs alive_def)

subsection \<open>Playing an empty text\<close>

text \<open>
  The state one timer into the playback of the text \<open>123\<close>: the tone of \<open>1\<close> has been
  stopped, the keys \<open>2\<close> and \<open>3\<close> wait in the queue, the next drain step is scheduled.
\<close>

lemma between_keys:
  "tick (worldOf (startSequencePlaybackFromText ''123'' (initial 120 40))) =
    \<lparr>audioContext = Some Running, masterGain = Some 0, toneGain = None,
     oscA = None, oscB = None, currentKey = None, isStarted = False,
     masterVolume = 3 / 10, cadenceTimeoutId = None, dialPreset = US,
     playMode = Hold, autoDurationMs = 120, gapMs = 40, seqTimer = Some 3,
     seqBuffer = [''2'', ''3''], isSeqPlaying = True,
     gains = [\<lparr>gainValue = 3 / 10, gainOut = Some Destination\<rparr>,
              \<lparr>gainValue = 1, gainOut = None\<rparr>],
     oscs = [\<lparr>frequency = 697, oscOut = None, started = True, stopped = True\<rparr>,
             \<lparr>frequency = 1209, oscOut = None, started = True, stopped = True\<rparr>],
     timers = [\<lparr>timerId = 2, due = 130, action = RemoveHighlight ''1''\<rparr>,
               \<lparr>timerId = 3, due = 160, action = ScheduleNext\<rparr>],
     clock = 120, nextTimerId = 4,
     trace = [SetCurrentKey ''1'', AppendLog ''1'', AddActive ''1'', ToneStarted ''1'',
              SetStatus NowPlaying, ToneStopped, SetCurrentKey dash]\<rparr>"
  by (simp add: engine_defs lookup_defs initial_def player_defs page_defs)

text \<open>
  Claim C10. With an empty text \<open>startSequencePlaybackFromText\<close> empties the queue and
  returns: the timers, the handle \<open>seqTimer\<close> and the playing flag are what they were.
  When a sequence was playing, the drain step that was scheduled already therefore still
  runs, finds the queue empty, clears the flag and reports waiting, and plays no key.
\<close>

theorem empty_text_drops_queue:
  "startSequencePlaybackFromText [] w = Returns (w\<lparr>seqBuffer := []\<rparr>)
   \<and> timers (worldOf (startSequencePlaybackFromText [] w)) = timers w
   \<and> seqTimer (worldOf (startSequencePlaybackFromText [] w)) = seqTimer w
   \<and> isSeqPlaying (worldOf (startSequencePlaybackFromText [] w)) = isSeqPlaying w
   \<and> (isSeqPlaying w \<longrightarrow>
        runCallback ScheduleNext (worldOf (startSequencePlaybackFromText [] w))
          = Returns (setStatus Waiting (w\<lparr>seqBuffer := [], isSeqPlaying := False\<rparr>)))"
  by (simp add: startSequencePlaybackFromText_def scheduleNextFromBuffer.simps)

theorem empty_text_drops_queue_witness:
  "isSeqPlaying (tick (worldOf (startSequencePlaybackFromText ''123'' (initial 120 40))))
   \<and> seqBuffer (tick (worldOf (startSequencePlaybackFromText ''123'' (initial 120 40))))
       = [''2'', ''3'']
   \<and> seqBuffer (worldOf (startSequencePlaybackFromText []
         (tick (worldOf (startSequencePlaybackFromText ''123'' (initial 120 40)))))) = []
   \<and> map action (timers (worldOf (startSequencePlaybackFromText []
         (tick (worldOf (startSequencePlaybackFromText ''123'' (initial 120 40)))))))
       = [RemoveHighlight ''1'', ScheduleNext]
   \<and> trace (run 2 (worldOf (startSequencePlaybackFromText []
         (tick (worldOf (startSequencePlaybackFromText ''123'' (initial 120 40)))))))
       = [SetCurrentKey ''1'', AppendLog ''1'', AddActive ''1'', ToneStarted ''1'',
          SetStatus NowPlaying, ToneStopped, SetCurrentKey dash,
          RemoveActive ''1'', SetStatus Waiting]
   \<and> \<not> isSeqPlaying (run 2 (worldOf (startSequencePlaybackFromText []
         (tick (worldOf (startSequencePlaybackFromText ''123'' (initial 120 40)))))))"
  using empty_text_drops_queue
    [of "tick (worldOf (startSequencePlaybackFromText ''123'' (initial 120 40)))"]
  by (simp add: between_keys)
    (simp add: player_defs page_defs run_numeral)

subsection \<open>The invariant of the reachable states\<close>

text \<open>
  The invariant of the engine with the oscillator store written out index by index, the form
  the proofs use.
\<close>

lemma set_aliveOscs: "set (aliveOscs w) = {i. i < length (oscs w) \<and> alive (oscs w ! i)}"
  by (auto simp: aliveOscs_def)

lemma aliveOscs_Nil: "aliveOscs w = [] \<longleftrightarrow> (\<forall>i<length (oscs w). \<not> alive (oscs w ! i))"
  by (auto simp: aliveOscs_def filter_empty_conv)

lemma set_toneOscs: "set (toneOscs w) = {i. oscA w = Some i \<or> oscB w = Some i}"
  by (auto simp: toneOscs_def split: option.splits)

lemma engineInvariant_iff:
  "engineInvariant w \<longleftrightarrow>
     (\<not> isStarted w \<longrightarrow> currentKey w = None)
     \<and> (currentKey w = None \<longrightarrow> cadenceTimeoutId w = None)
     \<and> (\<forall>i<length (oscs w). alive (oscs w ! i) \<longrightarrow> oscA w = Some i \<or> oscB w = Some i)
     \<and> (\<not> isStarted w \<longrightarrow> (\<forall>i<length (oscs w). \<not> alive (oscs w ! i)))"
  by (auto simp: engineInvariant_def set_aliveOscs set_toneOscs aliveOscs_Nil)

lemmas inv_defs = consistent_def engineInvariant_iff timersOk_def contextOk_def

text \<open>
  The invariant reads twelve fields of the state; a step that leaves them as they are
  preserves it. The page, the sliders, the queue and the clock are not among them.
\<close>

lemma inv_frame:
  assumes "isStarted w' = isStarted w" "currentKey w' = currentKey w"
    "cadenceTimeoutId w' = cadenceTimeoutId w" "oscs w' = oscs w" "oscA w' = oscA w"
    "oscB w' = oscB w" "timers w' = timers w" "nextTimerId w' = nextTimerId w"
    "audioContext w' = audioContext w" "masterGain w' = masterGain w"
    "toneGain w' = toneGain w" "length (gains w') = length (gains w)"
  shows "consistent w' = consistent w"
  by (simp add: inv_defs assms)

lemma inv_initial: "consistent (initial d g)"
  by (simp add: inv_defs initial_def)

lemma inv_page [simp]:
  "consistent (setStatus s w) = consistent w" "consistent (setCurrentKey k w) = consistent w" "consistent (appendLog k w) = consistent w"
  "consistent (addActive k w) = consistent w" "consistent (removeActive k w) = consistent w"
  by (rule inv_frame; simp add: page_defs)+

lemma inv_setTimeout: "consistent w \<Longrightarrow> \<not> isToggle cb \<Longrightarrow> consistent (snd (setTimeout cb d w))"
  by (auto simp: inv_defs setTimeout_def less_Suc_eq)

lemma inv_clearTimeout: "consistent w \<Longrightarrow> consistent (clearTimeout i w)"
  by (auto simp: inv_defs clearTimeout_def distinct_map_filter)

lemma inv_ensureContext: "consistent w \<Longrightarrow> consistent (ensureContext w)"
  by (auto simp: inv_defs ensureContext_def Let_def)

text \<open>
  What \<open>stopTone\<close> does to the fields the invariant reads: the oscillators of the current
  tone stop sounding, all other oscillators are as they were.
\<close>

lemma oscStopDisconnect_fields [simp]:
  "isStarted (oscStopDisconnect i w) = isStarted w"
  "currentKey (oscStopDisconnect i w) = currentKey w"
  "cadenceTimeoutId (oscStopDisconnect i w) = cadenceTimeoutId w"
  "oscA (oscStopDisconnect i w) = oscA w"
  "oscB (oscStopDisconnect i w) = oscB w"
  "toneGain (oscStopDisconnect i w) = toneGain w"
  "timers (oscStopDisconnect i w) = timers w"
  "nextTimerId (oscStopDisconnect i w) = nextTimerId w"
  "audioContext (oscStopDisconnect i w) = audioContext w"
  "masterGain (oscStopDisconnect i w) = masterGain w"
  "length (oscs (oscStopDisconnect i w)) = length (oscs w)"
  by (simp_all add: oscStopDisconnect_def)

lemma oscStopDisconnect_alive:
  "j < length (oscs w) \<Longrightarrow>
    alive (oscs (oscStopDisconnect i w) ! j) \<longleftrightarrow> j \<noteq> i \<and> alive (oscs w ! j)"
  by (cases "i = j") (auto simp: oscStopDisconnect_def alive_def)

lemma stopOscs_fields [simp]:
  "isStarted (stopOscs w) = isStarted w"
  "currentKey (stopOscs w) = currentKey w"
  "cadenceTimeoutId (stopOscs w) = cadenceTimeoutId w"
  "oscA (stopOscs w) = oscA w"
  "oscB (stopOscs w) = oscB w"
  "toneGain (stopOscs w) = toneGain w"
  "timers (stopOscs w) = timers w"
  "nextTimerId (stopOscs w) = nextTimerId w"
  "audioContext (stopOscs w) = audioContext w"
  "masterGain (stopOscs w) = masterGain w"
  "length (oscs (stopOscs w)) = length (oscs w)"
  by (simp_all add: stopOscs_def Let_def split: option.splits)

lemma stopOscs_alive:
  "j < length (oscs w) \<Longrightarrow>
    alive (oscs (stopOscs w) ! j) \<longleftrightarrow> oscA w \<noteq> Some j \<and> oscB w \<noteq> Some j \<and> alive (oscs w ! j)"
  by (auto simp: stopOscs_def Let_def oscStopDisconnect_alive split: option.splits)

lemma stopTone_started:
  "isStarted w \<Longrightarrow>
    stopTone w =
     (let w1 = stopOscs (case cadenceTimeoutId w of
                   None \<Rightarrow> w
                 | Some i \<Rightarrow> (clearTimeout i w)\<lparr>cadenceTimeoutId := None\<rparr>);
          w4 = (case toneGain w1 of None \<Rightarrow> w1 | Some g \<Rightarrow> gainDisconnect g w1)
       in w4\<lparr>oscA := None, oscB := None, toneGain := None, isStarted := False,
              currentKey := None, trace := trace w4 @ [ToneStopped]\<rparr>)"
  by (simp add: stopTone_def stopOscs_def Let_def)

lemma gainDisconnect_fields [simp]:
  "isStarted (gainDisconnect i w) = isStarted w"
  "currentKey (gainDisconnect i w) = currentKey w"
  "cadenceTimeoutId (gainDisconnect i w) = cadenceTimeoutId w"
  "oscA (gainDisconnect i w) = oscA w"
  "oscB (gainDisconnect i w) = oscB w"
  "oscs (gainDisconnect i w) = oscs w"
  "toneGain (gainDisconnect i w) = toneGain w"
  "timers (gainDisconnect i w) = timers w"
  "nextTimerId (gainDisconnect i w) = nextTimerId w"
  "audioContext (gainDisconnect i w) = audioContext w"
  "masterGain (gainDisconnect i w) = masterGain w"
  by (simp_all add: gainDisconnect_def)

lemma stopTone_fields:
  "isStarted w \<Longrightarrow> \<not> isStarted (stopTone w) \<and> currentKey (stopTone w) = None
     \<and> cadenceTimeoutId (stopTone w) = None \<and> oscA (stopTone w) = None \<and> oscB (stopTone w) = None
     \<and> toneGain (stopTone w) = None
     \<and> nextTimerId (stopTone w) = nextTimerId w \<and> audioContext (stopTone w) = audioContext w
     \<and> masterGain (stopTone w) = masterGain w \<and> length (oscs (stopTone w)) = length (oscs w)
     \<and> timers (stopTone w) = (case cadenceTimeoutId w of None \<Rightarrow> timers w
           | Some i \<Rightarrow> filter (\<lambda>t. timerId t \<noteq> i) (timers w))"
  by (simp add: stopTone_started Let_def clearTimeout_def split: option.splits)

lemma stopTone_alive:
  "isStarted w \<Longrightarrow> j < length (oscs w) \<Longrightarrow>
    alive (oscs (stopTone w) ! j) \<longleftrightarrow> oscA w \<noteq> Some j \<and> oscB w \<noteq> Some j \<and> alive (oscs w ! j)"
  by (simp add: stopTone_started Let_def clearTimeout_def stopOscs_alive split: option.splits)

text \<open>
  \<open>stopTone\<close> preserves the invariant.
\<close>

lemma inv_stopTone: "consistent w \<Longrightarrow> consistent (stopTone w)"
proof (cases "isStarted w")
  case False
  then show "consistent w \<Longrightarrow> consistent (stopTone w)" by (simp add: stopTone_def)
next
  case True
  assume i: "consistent w"
  note f = stopTone_fields [OF True]
  have "engineInvariant (stopTone w)"
    using i f by (auto simp: inv_defs stopTone_alive [OF True])
  moreover have "timersOk (stopTone w)"
    using i f by (auto simp: inv_defs distinct_map_filter split: option.splits)
  moreover have "contextOk (stopTone w)"
    using i f by (simp add: inv_defs)
  ultimately show ?thesis by (simp add: consistent_def)
qed

text \<open>
  The two tables have the same keys. A specification the lookup returns therefore has both
  frequencies from the tables or both inherited, and the allocation throws at the first
  oscillator, before anything sounds, or not at all.
\<close>

lemma same_keys: "map_of dtmfLow key = None \<longleftrightarrow> map_of dtmfHigh key = None"
  by (simp add: dtmfLow_def dtmfHigh_def)

lemma lookup_specOk: "getFrequenciesForKey dp key = Some spec \<Longrightarrow> specOk spec"
  using same_keys [of key]
  by (auto simp: getFrequenciesForKey_def getProp_def specOk_def Let_def split: if_splits option.splits)

text \<open>
  A toggle changes the cadence handle, so it preserves the invariant when a key is current
  and no other toggle is pending; and no toggle is pending when the engine is not
  started.
\<close>

lemma noToggle_idle: "consistent w \<Longrightarrow> \<not> isStarted w \<Longrightarrow> noToggle w"
  by (auto simp: inv_defs noToggle_def)

lemma inv_toggle:
  "consistent w \<Longrightarrow> currentKey w \<noteq> None \<Longrightarrow> noToggle w \<Longrightarrow> consistent (toggle b on off w)"
  by (auto simp: inv_defs noToggle_def toggle_def setTimeout_def Let_def less_Suc_eq split: option.splits)

text \<open>
  The allocation, on a state in which the engine is not started, preserves the three
  parts of the invariant; so does \<open>startToneForKey\<close>.
\<close>

lemma allocTone_engine:
  assumes "engineInvariant w" "\<not> isStarted w" "specOk spec"
  shows "engineInvariant (worldOf (allocTone key spec mg w))"
  using assms
  by (auto simp: engineInvariant_iff specOk_def allocTone_def startOscillator_def finishStart_def
      toggle_def setTimeout_def newOscillator_def alive_def Let_def nth_append less_Suc_eq
      split: option.splits)

lemma allocTone_timers:
  assumes "timersOk w" "noToggle w"
  shows "timersOk (worldOf (allocTone key spec mg w))"
  using assms
  by (auto simp: timersOk_def noToggle_def allocTone_def startOscillator_def finishStart_def
      toggle_def setTimeout_def Let_def less_Suc_eq
      split: option.splits)

lemma allocTone_context:
  assumes "contextOk w" "audioContext w \<noteq> None"
  shows "contextOk (worldOf (allocTone key spec mg w))"
  using assms
  by (auto simp: contextOk_def allocTone_def startOscillator_def finishStart_def
      toggle_def setTimeout_def Let_def
      split: option.splits)

lemma inv_allocTone:
  "consistent w \<Longrightarrow> \<not> isStarted w \<Longrightarrow> specOk spec \<Longrightarrow> audioContext w \<noteq> None
    \<Longrightarrow> consistent (worldOf (allocTone key spec mg w))"
  using noToggle_idle [of w]
  by (simp add: consistent_def allocTone_engine allocTone_timers allocTone_context)

lemma stopTone_not_started [simp]: "\<not> isStarted (stopTone w)"
  by (simp add: stopTone_def Let_def)

lemma stopTone_context [simp]:
  "audioContext (stopTone w) = audioContext w" "masterGain (stopTone w) = masterGain w"
  using stopTone_fields [of w] by (cases "isStarted w"; simp add: stopTone_def)+

lemma inv_startToneForKey: "consistent w \<Longrightarrow> consistent (worldOf (startToneForKey key w))"
  by (auto simp: startToneForKey_def Let_def inv_ensureContext inv_stopTone inv_allocTone
      lookup_specOk split: option.splits)

text \<open>
  The sequence player and the keys pressed by hand reach the engine through
  \<open>startToneForKey\<close> and \<open>stopTone\<close> only, and set no cadence timer.
\<close>

lemma inv_seq_fields [simp]:
  "consistent (w\<lparr>seqBuffer := sb\<rparr>) = consistent w"
  "consistent (w\<lparr>isSeqPlaying := sp\<rparr>) = consistent w"
  "consistent (w\<lparr>seqTimer := st\<rparr>) = consistent w"
  "consistent (w\<lparr>playMode := pm\<rparr>) = consistent w"
  "consistent (w\<lparr>autoDurationMs := ad\<rparr>) = consistent w"
  "consistent (w\<lparr>gapMs := gm\<rparr>) = consistent w"
  "consistent (w\<lparr>clock := c\<rparr>) = consistent w"
  "consistent (w\<lparr>dialPreset := dp\<rparr>) = consistent w"
  by (rule inv_frame; simp)+

lemma inv_setVolume: "consistent w \<Longrightarrow> consistent (setVolume v w)"
  by (auto simp: inv_defs setVolume_def Let_def split: option.splits)

lemma inv_cancelSequencePlayback: "consistent w \<Longrightarrow> consistent (cancelSequencePlayback w)"
  by (simp add: cancelSequencePlayback_def Let_def inv_clearTimeout split: option.splits)

lemma inv_andThen:
  "consistent (worldOf r) \<Longrightarrow> (\<And>w. consistent w \<Longrightarrow> consistent (worldOf (f w)))
    \<Longrightarrow> consistent (worldOf (andThen r f))"
  by (cases r) simp_all

lemma inv_playOnce: "consistent w \<Longrightarrow> consistent (worldOf (playOnce k w))"
  unfolding playOnce_def
  by (rule inv_andThen) (simp_all add: inv_startToneForKey inv_setTimeout Let_def)

lemma inv_playKey: "consistent w \<Longrightarrow> consistent (worldOf (playKey k w))"
  unfolding playKey_def
  by (rule inv_andThen) (simp_all add: inv_playOnce inv_setTimeout)

lemma inv_scheduleNextFromBuffer:
  "consistent w \<Longrightarrow> consistent (worldOf (scheduleNextFromBuffer w))"
proof (induction w rule: scheduleNextFromBuffer.induct)
  case (1 w)
  then show ?case
    by (subst scheduleNextFromBuffer.simps) (auto simp: inv_playKey split: list.splits)
qed

lemma inv_playOnceTimeout: "consistent w \<Longrightarrow> consistent (playOnceTimeout k w)"
  by (simp add: playOnceTimeout_def Let_def inv_setTimeout inv_stopTone)

lemma inv_startSequencePlaybackFromText:
  "consistent w \<Longrightarrow> consistent (worldOf (startSequencePlaybackFromText raw w))"
  by (simp add: startSequencePlaybackFromText_def Let_def inv_scheduleNextFromBuffer
      inv_cancelSequencePlayback)

lemma inv_triggerKeyDown: "consistent w \<Longrightarrow> consistent (worldOf (triggerKeyDown k w))"
  unfolding triggerKeyDown_def Let_def
  by (auto intro!: inv_andThen simp: inv_startToneForKey inv_setTimeout)

lemma inv_autoStop: "consistent w \<Longrightarrow> consistent (autoStop k w)"
  by (simp add: autoStop_def inv_stopTone)

lemma inv_triggerKeyUp: "consistent w \<Longrightarrow> consistent (triggerKeyUp k w)"
  by (simp add: triggerKeyUp_def Let_def inv_stopTone)

text \<open>
  A timer that fires leaves the queue. When it is a toggle, it was the only one, and a key
  is current.
\<close>

lemma earliest_in: "earliest ts = Some t \<Longrightarrow> t \<in> set ts"
  by (induction ts arbitrary: t) (auto split: option.splits if_splits)

lemma inv_remove1:
  assumes "consistent w" "t \<in> set (timers w)"
  shows "consistent (w\<lparr>timers := remove1 t (timers w), clock := c\<rparr>)"
  using assms by (auto simp: inv_defs distinct_map inj_on_def dest: notin_set_remove1)

lemma toggle_handle:
  "consistent w \<Longrightarrow> t \<in> set (timers w) \<Longrightarrow> isToggle (action t)
    \<Longrightarrow> cadenceTimeoutId w = Some (timerId t)"
  by (auto simp: inv_defs)

lemma fired_toggle:
  assumes "consistent w" "t \<in> set (timers w)" "isToggle (action t)"
  shows "currentKey w \<noteq> None" "noToggle (w\<lparr>timers := remove1 t (timers w), clock := c\<rparr>)"
proof -
  from assms show "currentKey w \<noteq> None" by (auto simp: inv_defs)
  have d: "distinct (map timerId (timers w))" using assms(1) by (simp add: inv_defs)
  have "u \<in> set (remove1 t (timers w)) \<Longrightarrow> \<not> isToggle (action u)" for u
  proof
    assume u: "u \<in> set (remove1 t (timers w))" and "isToggle (action u)"
    then have "u \<in> set (timers w)" by (meson notin_set_remove1)
    with \<open>isToggle (action u)\<close> assms have "timerId u = timerId t"
      using toggle_handle [of w u] toggle_handle [of w t] by simp
    with d \<open>u \<in> set (timers w)\<close> assms(2) have "u = t"
      by (auto simp: distinct_map inj_on_def)
    moreover from d have "distinct (timers w)" by (simp add: distinct_map)
    ultimately show False using u by simp
  qed
  then show "noToggle (w\<lparr>timers := remove1 t (timers w), clock := c\<rparr>)"
    by (simp add: noToggle_def)
qed

lemma inv_fire:
  assumes "consistent w" "t \<in> set (timers w)"
  shows "consistent (fire t w)"
proof -
  let ?w = "w\<lparr>timers := remove1 t (timers w), clock := max (clock w) (due t)\<rparr>"
  have w': "consistent ?w" using assms by (rule inv_remove1)
  show ?thesis
  proof (cases "action t")
    case (Toggle b on off)
    with fired_toggle [OF assms] w' show ?thesis
      by (simp add: fire_def inv_toggle)
  qed (use w' in \<open>simp_all add: fire_def inv_playOnceTimeout inv_scheduleNextFromBuffer inv_autoStop\<close>)
qed

lemma inv_tick: "consistent w \<Longrightarrow> consistent (tick w)"
  by (auto simp: tick_def inv_fire earliest_in split: option.splits)

lemma inv_handle: "consistent w \<Longrightarrow> consistent (handle e w)"
  by (cases e)
    (simp_all add: Let_def inv_startToneForKey inv_stopTone inv_setVolume setDialPreset_def
      inv_triggerKeyDown inv_triggerKeyUp inv_startSequencePlaybackFromText
      inv_cancelSequencePlayback inv_tick)

text \<open>
  Every state the page can reach is consistent.
\<close>

lemma reachable_consistent: "reachable w \<Longrightarrow> consistent w"
  by (induction rule: reachable.induct) (simp_all add: inv_initial inv_handle)

text \<open>
  At most two oscillators sound, and starting a tone is allocating after stopping.
\<close>

lemma aliveOscs_le2: "set (aliveOscs w) \<subseteq> set (toneOscs w) \<Longrightarrow> length (aliveOscs w) \<le> 2"
proof -
  assume sub: "set (aliveOscs w) \<subseteq> set (toneOscs w)"
  have "distinct (aliveOscs w)" by (simp add: aliveOscs_def)
  then have "length (aliveOscs w) = card (set (aliveOscs w))"
    by (simp add: distinct_card)
  also have "\<dots> \<le> card (set (toneOscs w))"
    using sub by (simp add: card_mono)
  also have "\<dots> \<le> length (toneOscs w)" by (rule card_length)
  also have "\<dots> \<le> 2" by (simp add: toneOscs_def split: option.splits)
  finally show ?thesis .
qed

lemma start_is_alloc_after_stop:
  assumes "consistent w" "getFrequenciesForKey (dialPreset w) key = Some spec"
  shows "\<exists>mg. startToneForKey key w = allocTone key spec mg (stopTone (ensureContext w))"
proof -
  have "consistent (ensureContext w)" using assms(1) by (rule inv_ensureContext)
  moreover have "audioContext (ensureContext w) \<noteq> None"
    by (auto simp: ensureContext_def Let_def)
  ultimately obtain c mg where "audioContext (ensureContext w) = Some c"
    "masterGain (ensureContext w) = Some mg"
    by (auto simp: consistent_def contextOk_def)
  with assms(2) show ?thesis
    by (auto simp: startToneForKey_def Let_def)
qed

text \<open>
  Claim C3. In every state the page can reach: when the engine is not started there is
  no current key; when there is no current key there is no cadence handle and no cadence
  timer is pending; the oscillators that sound are among the two the fields \<open>oscA\<close> and
  \<open>oscB\<close> hold, the oscillators of the current tone, so at most two sound and all of one
  tone; none sounds when the engine is not started. Starting a tone is the allocation
  \<open>allocTone\<close> applied to the state \<open>stopTone\<close> has left, and in that state no oscillator
  sounds and no cadence timer is pending.
\<close>

theorem engine_invariant_always:
  assumes "reachable w"
  shows "(\<not> isStarted w \<longrightarrow> currentKey w = None)
     \<and> (currentKey w = None \<longrightarrow> cadenceTimeoutId w = None \<and> noToggle w)
     \<and> set (aliveOscs w) \<subseteq> set (toneOscs w) \<and> length (aliveOscs w) \<le> 2
     \<and> (\<not> isStarted w \<longrightarrow> aliveOscs w = [])
     \<and> (\<forall>key spec. getFrequenciesForKey (dialPreset w) key = Some spec \<longrightarrow>
           (\<exists>mg. startToneForKey key w = allocTone key spec mg (stopTone (ensureContext w))))
     \<and> aliveOscs (stopTone (ensureContext w)) = []
     \<and> noToggle (stopTone (ensureContext w))"
proof -
  from assms have c: "consistent w" by (rule reachable_consistent)
  then have e: "engineInvariant w" by (simp add: consistent_def)
  have c': "consistent (stopTone (ensureContext w))"
    using c by (simp add: inv_ensureContext inv_stopTone)
  then have "engineInvariant (stopTone (ensureContext w))" by (simp add: consistent_def)
  then have torn: "aliveOscs (stopTone (ensureContext w)) = []"
    by (simp add: engineInvariant_def)
  have quiet: "noToggle (stopTone (ensureContext w))"
    using c' by (simp add: noToggle_idle)
  have nokey: "currentKey w = None \<Longrightarrow> noToggle w"
    using c by (auto simp: inv_defs noToggle_def)
  from e have "set (aliveOscs w) \<subseteq> set (toneOscs w)" by (simp add: engineInvariant_def)
  then have "length (aliveOscs w) \<le> 2" by (rule aliveOscs_le2)
  with e torn quiet nokey start_is_alloc_after_stop [OF c] show ?thesis
    by (simp add: engineInvariant_def)
qed

text \<open>The state with the tone of \<open>5\<close> started over the disconnect tone.\<close>

lemma five_after_disconnect:
  "worldOf (startToneForKey ''5'' (worldOf (startToneForKey ''/'' (initial 120 40)))) =
    \<lparr>audioContext = Some Running, masterGain = Some 0, toneGain = Some 2,
     oscA = Some 2, oscB = Some 3, currentKey = Some ''5'', isStarted = True,
     masterVolume = 3 / 10, cadenceTimeoutId = None, dialPreset = US,
     playMode = Hold, autoDurationMs = 120, gapMs = 40, seqTimer = None,
     seqBuffer = [], isSeqPlaying = False,
     gains = [\<lparr>gainValue = 3 / 10, gainOut = Some Destination\<rparr>,
              \<lparr>gainValue = 1, gainOut = None\<rparr>,
              \<lparr>gainValue = 1, gainOut = Some (GainInput 0)\<rparr>],
     oscs = [\<lparr>frequency = 480, oscOut = None, started = True, stopped = True\<rparr>,
             \<lparr>frequency = 620, oscOut = None, started = True, stopped = True\<rparr>,
             \<lparr>frequency = 770, oscOut = Some 2, started = True, stopped = False\<rparr>,
             \<lparr>frequency = 1336, oscOut = Some 2, started = True, stopped = False\<rparr>],
     timers = [],
     clock = 0, nextTimerId = 2, trace = [ToneStarted ''/'', ToneStopped, ToneStarted ''5'']\<rparr>"
  by (simp add: disconnect_tone_playing) (simp add: engine_defs lookup_defs)

theorem engine_invariant_always_witness:
  "reachable (handle (StartTone ''5'') (handle (StartTone ''/'') (initial 120 40)))
   \<and> currentKey (handle (StartTone ''5'') (handle (StartTone ''/'') (initial 120 40))) = Some ''5''
   \<and> aliveOscs (handle (StartTone ''5'') (handle (StartTone ''/'') (initial 120 40))) = [2, 3]
   \<and> toneOscs (handle (StartTone ''5'') (handle (StartTone ''/'') (initial 120 40))) = [2, 3]
   \<and> noToggle (handle (StartTone ''5'') (handle (StartTone ''/'') (initial 120 40)))
   \<and> aliveOscs (stopTone (ensureContext
         (handle (StartTone ''5'') (handle (StartTone ''/'') (initial 120 40))))) = []"
proof -
  have r: "reachable (handle (StartTone ''5'') (handle (StartTone ''/'') (initial 120 40)))"
    by (intro reachable.step reachable.start)
  show ?thesis
    using r engine_invariant_always [OF r]
    by (simp add: five_after_disconnect)
      (simp add: aliveOscs_def toneOscs_def noToggle_def alive_def upt_conv_Cons)
qed

subsection \<open>The cadence\<close>

text \<open>
  A toggle that fires in a consistent state finds the audio context and the gate, sets the
  gate and leaves the next toggle pending under a fresh handle.
\<close>

lemma find_append_fresh: "\<forall>x \<in> set xs. \<not> P x \<Longrightarrow> find P (xs @ ys) = find P ys"
  by (induction xs) simp_all

lemma running_has_gate:
  assumes "consistent w" "t \<in> set (timers w)" "isToggle (action t)"
  shows "\<exists>c g. audioContext w = Some c \<and> toneGain w = Some g \<and> g < length (gains w)"
proof -
  from assms have "cadenceTimeoutId w = Some (timerId t)" by (rule toggle_handle)
  with assms(1) have "isStarted w" by (auto simp: inv_defs)
  with assms(1) show ?thesis by (auto simp: inv_defs)
qed

lemma fire_toggle:
  assumes "consistent w" "t \<in> set (timers w)" "action t = Toggle isOn onMs offMs"
  shows "gate (fire t w) = Some (if isOn then 1 else 0)"
    and "clock (fire t w) = max (clock w) (due t)"
    and "cadenceTimer (fire t w) =
          Some \<lparr>timerId = nextTimerId w,
                due = max (clock w) (due t) + (if isOn then onMs else offMs),
                action = Toggle (\<not> isOn) onMs offMs\<rparr>"
proof -
  from assms obtain c g where g: "audioContext w = Some c" "toneGain w = Some g" "g < length (gains w)"
    using running_has_gate [of w t] by auto
  have fresh: "\<forall>u \<in> set (remove1 t (timers w)). \<not> timerId u = nextTimerId w"
  proof
    fix u assume "u \<in> set (remove1 t (timers w))"
    then have "u \<in> set (timers w)" by (meson notin_set_remove1)
    with assms(1) have "timerId u < nextTimerId w" by (auto simp: inv_defs)
    then show "\<not> timerId u = nextTimerId w" by simp
  qed
  show "gate (fire t w) = Some (if isOn then 1 else 0)"
    using g assms(3) by (simp add: fire_def toggle_def setTimeout_def gate_def Let_def)
  show "clock (fire t w) = max (clock w) (due t)"
    using g assms(3) by (simp add: fire_def toggle_def setTimeout_def Let_def)
  show "cadenceTimer (fire t w) =
          Some \<lparr>timerId = nextTimerId w,
                due = max (clock w) (due t) + (if isOn then onMs else offMs),
                action = Toggle (\<not> isOn) onMs offMs\<rparr>"
    using g assms(3) fresh
    by (simp add: fire_def toggle_def setTimeout_def cadenceTimer_def Let_def find_append_fresh)
qed

text \<open>
  Starting the disconnect tone: the entry into the cycle.
\<close>

lemma cadenceTimer_in:
  "cadenceTimer w = Some t \<Longrightarrow> t \<in> set (timers w)"
  by (auto simp: cadenceTimer_def find_Some_iff split: option.splits)

lemma ensureContext_frame [simp]:
  "clock (ensureContext w) = clock w" "nextTimerId (ensureContext w) = nextTimerId w"
  "timers (ensureContext w) = timers w" "dialPreset (ensureContext w) = dialPreset w"
  by (simp_all add: ensureContext_def Let_def)

lemma stopTone_frame [simp]:
  "clock (stopTone w) = clock w" "nextTimerId (stopTone w) = nextTimerId w"
  by (simp_all add: stopTone_def Let_def clearTimeout_def oscStopDisconnect_def
      gainDisconnect_def split: option.splits)

lemma start_disconnect:
  assumes "consistent w"
  shows "startToneForKey ''/'' w = Returns (worldOf (startToneForKey ''/'' w))"
    and "gate (worldOf (startToneForKey ''/'' w)) = Some 1"
    and "clock (worldOf (startToneForKey ''/'' w)) = clock w"
    and "cadenceTimer (worldOf (startToneForKey ''/'' w)) =
          Some \<lparr>timerId = nextTimerId w, due = clock w + 250, action = Toggle False 250 250\<rparr>"
proof -
  let ?v = "stopTone (ensureContext w)"
  have v: "consistent ?v" using assms by (simp add: inv_ensureContext inv_stopTone)
  have "audioContext (ensureContext w) \<noteq> None" by (auto simp: ensureContext_def Let_def)
  moreover have "consistent (ensureContext w)" using assms by (rule inv_ensureContext)
  ultimately obtain c mg where cm: "audioContext (ensureContext w) = Some c"
    "masterGain (ensureContext w) = Some mg"
    by (auto simp: consistent_def contextOk_def)
  have s: "startToneForKey ''/'' w =
      allocTone ''/'' \<lparr>spec_a = Num 480, spec_b = Num 620, isContinuous = False,
             cadence = Some (250, 250)\<rparr> mg ?v"
    using cm by (simp add: startToneForKey_def getFrequenciesForKey_def Let_def)
  have fresh: "\<forall>u \<in> set (timers ?v). \<not> timerId u = nextTimerId w"
    using v by (auto simp: inv_defs)
  have ctx: "audioContext ?v = Some c" using cm by simp
  show "startToneForKey ''/'' w = Returns (worldOf (startToneForKey ''/'' w))"
    unfolding s by (simp add: allocTone_def startOscillator_def Let_def)
  show "gate (worldOf (startToneForKey ''/'' w)) = Some 1"
    unfolding s using ctx
    by (simp add: allocTone_def startOscillator_def finishStart_def toggle_def setTimeout_def
        gate_def Let_def)
  show "clock (worldOf (startToneForKey ''/'' w)) = clock w"
    unfolding s using ctx
    by (simp add: allocTone_def startOscillator_def finishStart_def toggle_def setTimeout_def
        Let_def)
  show "cadenceTimer (worldOf (startToneForKey ''/'' w)) =
          Some \<lparr>timerId = nextTimerId w, due = clock w + 250, action = Toggle False 250 250\<rparr>"
    unfolding s using ctx fresh
    by (simp add: allocTone_def startOscillator_def finishStart_def toggle_def setTimeout_def
        cadenceTimer_def Let_def find_append_fresh)
qed

text \<open>
  The cycle, by induction on the number of toggles fired.
\<close>

lemma cadenceRun_Suc: "cadenceRun (Suc n) w = fireCadence (cadenceRun n w)"
  by (induction n arbitrary: w) simp_all

lemma cadence_forever:
  assumes "consistent w0" "gate w0 = Some 1" "clock w0 = c"
    "map_option due (cadenceTimer w0) = Some (c + 250)"
    "map_option action (cadenceTimer w0) = Some (Toggle False 250 250)"
  shows "consistent (cadenceRun n w0)
    \<and> gate (cadenceRun n w0) = Some (if even n then 1 else 0)
    \<and> clock (cadenceRun n w0) = c + 250 * n
    \<and> map_option due (cadenceTimer (cadenceRun n w0)) = Some (c + 250 * (n + 1))
    \<and> map_option action (cadenceTimer (cadenceRun n w0)) = Some (Toggle (odd n) 250 250)"
proof (induction n)
  case 0
  then show ?case using assms by simp
next
  case (Suc n)
  let ?w = "cadenceRun n w0"
  from Suc obtain t where t: "cadenceTimer ?w = Some t" "due t = c + 250 * (n + 1)"
    "action t = Toggle (odd n) 250 250"
    by auto
  have tin: "t \<in> set (timers ?w)" using t(1) by (rule cadenceTimer_in)
  have c: "consistent ?w" using Suc by simp
  have f: "cadenceRun (Suc n) w0 = fire t ?w"
    unfolding cadenceRun_Suc using t(1) by (simp add: fireCadence_def)
  have clk: "clock ?w = c + 250 * n" using Suc by simp
  show ?case
    unfolding f using fire_toggle [OF c tin t(3)] inv_fire [OF c tin] t(2) clk
    by simp
qed

lemma stopTone_quiet:
  assumes "consistent w"
  shows "noToggle (stopTone w)" "cadenceTimer (stopTone w) = None"
proof -
  have c: "consistent (stopTone w)" using assms by (rule inv_stopTone)
  then show "noToggle (stopTone w)" by (simp add: noToggle_idle)
  from c have "cadenceTimeoutId (stopTone w) = None" by (auto simp: inv_defs)
  then show "cadenceTimer (stopTone w) = None" by (simp add: cadenceTimer_def)
qed

subsection \<open>Cancelling a playback\<close>

text \<open>
  Reading a trace piece by piece.
\<close>

lemma toneStarts_append [simp]: "toneStarts (xs @ ys) = toneStarts xs @ toneStarts ys"
  by (simp add: toneStarts_def)

lemma keysLogged_append [simp]: "keysLogged (xs @ ys) = keysLogged xs @ keysLogged ys"
  by (simp add: keysLogged_def)

lemma idleReports_append [simp]: "idleReports (xs @ ys) = idleReports xs + idleReports ys"
  by (simp add: idleReports_def)

lemma trace_simps [simp]:
  "toneStarts [] = []" "keysLogged [] = []" "idleReports [] = 0"
  "toneStarts (e # tr) = startedKey e @ toneStarts tr"
  "keysLogged (e # tr) = loggedKey e @ keysLogged tr"
  "idleReports (e # tr) = (if e = SetStatus Waiting then 1 else 0) + idleReports tr"
  by (simp_all add: toneStarts_def keysLogged_def idleReports_def)

text \<open>What stays as it is when a tone is stopped or a cadence toggles.\<close>

text \<open>
  The engine does not touch the sequence player.
\<close>

lemma stopTone_player [simp]:
  "isSeqPlaying (stopTone w) = isSeqPlaying w" "seqBuffer (stopTone w) = seqBuffer w"
  "seqTimer (stopTone w) = seqTimer w"
  "autoDurationMs (stopTone w) = autoDurationMs w" "gapMs (stopTone w) = gapMs w"
  "playMode (stopTone w) = playMode w" "dialPreset (stopTone w) = dialPreset w"
  by (simp_all add: stopTone_def Let_def clearTimeout_def oscStopDisconnect_def
      gainDisconnect_def split: option.splits)

lemma stopTone_trace:
  "trace (stopTone w) = trace w @ (if isStarted w then [ToneStopped] else [])"
  by (simp add: stopTone_def Let_def clearTimeout_def oscStopDisconnect_def
      gainDisconnect_def split: option.splits)

lemma toggle_player [simp]:
  "isSeqPlaying (toggle b on off w) = isSeqPlaying w" "seqBuffer (toggle b on off w) = seqBuffer w"
  "trace (toggle b on off w) = trace w" "currentKey (toggle b on off w) = currentKey w"
  "autoDurationMs (toggle b on off w) = autoDurationMs w" "gapMs (toggle b on off w) = gapMs w"
  by (simp_all add: toggle_def setTimeout_def Let_def split: option.splits)





text \<open>
  The engine and the keys pressed by hand do not touch the sequence player; so while the
  playing flag is clear, nothing but a new playback sets it or touches the queue.
\<close>

lemma startToneForKey_player [simp]:
  "isSeqPlaying (worldOf (startToneForKey k w)) = isSeqPlaying w"
  "seqBuffer (worldOf (startToneForKey k w)) = seqBuffer w"
  "seqTimer (worldOf (startToneForKey k w)) = seqTimer w"
  by (auto simp: startToneForKey_def allocTone_def startOscillator_def finishStart_def
      toggle_def setTimeout_def ensureContext_def Let_def split: option.splits prod.splits)

lemma triggerKeyDown_player [simp]:
  "isSeqPlaying (worldOf (triggerKeyDown k w)) = isSeqPlaying w"
  "seqBuffer (worldOf (triggerKeyDown k w)) = seqBuffer w"
proof -
  let ?u = "appendLog k (setCurrentKey k (addActive k w))"
  have u: "isSeqPlaying ?u = isSeqPlaying w" "seqBuffer ?u = seqBuffer w"
    by (simp_all add: page_defs)
  show "isSeqPlaying (worldOf (triggerKeyDown k w)) = isSeqPlaying w"
    using startToneForKey_player(1) [of k ?u] u
    by (cases "startToneForKey k ?u")
      (simp_all add: triggerKeyDown_def Let_def setTimeout_def setStatus_def)
  show "seqBuffer (worldOf (triggerKeyDown k w)) = seqBuffer w"
    using startToneForKey_player(2) [of k ?u] u
    by (cases "startToneForKey k ?u")
      (simp_all add: triggerKeyDown_def Let_def setTimeout_def setStatus_def)
qed







subsection \<open>Only stopping the tone ends the cadence\<close>

text \<open>
  At most one cadence timer is pending; what a toggle that fires leaves behind; and
  \<open>stopTone\<close> takes timers out of the queue and adds none.
\<close>

lemma toggle_unique:
  assumes "consistent w" "t \<in> set (timers w)" "isToggle (action t)"
    "u \<in> set (timers w)" "isToggle (action u)"
  shows "u = t"
proof -
  have "timerId u = timerId t"
    using toggle_handle [of w u] toggle_handle [of w t] assms by simp
  moreover have "distinct (map timerId (timers w))" using assms(1) by (simp add: inv_defs)
  ultimately show ?thesis using assms(2,4) by (auto simp: distinct_map inj_on_def)
qed

lemma fire_toggle_timers:
  assumes "consistent w" "t \<in> set (timers w)" "action t = Toggle b on off"
  shows "timers (fire t w) = remove1 t (timers w) @
      [\<lparr>timerId = nextTimerId w, due = max (clock w) (due t) + (if b then on else off),
        action = Toggle (\<not> b) on off\<rparr>]"
    and "trace (fire t w) = trace w" and "isSeqPlaying (fire t w) = isSeqPlaying w"
    and "seqBuffer (fire t w) = seqBuffer w" and "currentKey (fire t w) = currentKey w"
proof -
  from assms obtain c g where g: "audioContext w = Some c" "toneGain w = Some g"
    using running_has_gate [of w t] by auto
  then show "timers (fire t w) = remove1 t (timers w) @
      [\<lparr>timerId = nextTimerId w, due = max (clock w) (due t) + (if b then on else off),
        action = Toggle (\<not> b) on off\<rparr>]"
    using assms(3) by (simp add: fire_def toggle_def setTimeout_def Let_def)
  show "trace (fire t w) = trace w" "isSeqPlaying (fire t w) = isSeqPlaying w"
    "seqBuffer (fire t w) = seqBuffer w" "currentKey (fire t w) = currentKey w"
    using assms(3) by (simp_all add: fire_def)
qed

lemma stopTone_timers_filter: "\<exists>F. timers (stopTone w) = filter F (timers w)"
proof (cases "isStarted w")
  case False
  then have "timers (stopTone w) = filter (\<lambda>t. True) (timers w)" by (simp add: stopTone_def)
  then show ?thesis by blast
next
  case True
  show ?thesis
  proof (cases "cadenceTimeoutId w")
    case None
    with stopTone_fields [OF True] have "timers (stopTone w) = filter (\<lambda>t. True) (timers w)"
      by simp
    then show ?thesis by blast
  next
    case (Some i)
    with stopTone_fields [OF True] show ?thesis by auto
  qed
qed

text \<open>
  The relation \<open>follows\<close> is reflexive and transitive, and every function of the script
  takes a state to one that follows it; for \<open>cancelSequencePlayback\<close> this rests on
  the handle in \<open>seqTimer\<close> being that of a drain step and not of a toggle.
\<close>

lemma seqTimerOk_frame:
  assumes "seqTimerOk w" "seqTimer v = seqTimer w" "nextTimerId w \<le> nextTimerId v"
    and "\<And>t. t \<in> set (timers v) \<Longrightarrow> t \<in> set (timers w) \<or> nextTimerId w \<le> timerId t"
  shows "seqTimerOk v"
proof (cases "seqTimer w")
  case None
  with assms(2) show ?thesis by (simp add: seqTimerOk_def)
next
  case (Some i)
  with assms(1) have i: "i < nextTimerId w"
    "\<And>t. t \<in> set (timers w) \<Longrightarrow> timerId t = i \<Longrightarrow> action t = ScheduleNext"
    by (auto simp: seqTimerOk_def)
  have "action t = ScheduleNext" if "t \<in> set (timers v)" "timerId t = i" for t
    using assms(4) [OF that(1)] i that(2) by auto
  with i(1) assms(2,3) Some show ?thesis by (auto simp: seqTimerOk_def)
qed

lemma followsI:
  assumes "trace v = trace w @ xs"
    and "\<And>t. t \<in> set (timers w) \<Longrightarrow> isToggle (action t) \<Longrightarrow> t \<in> set (timers v) \<or> ToneStopped \<in> set xs"
    and "nextTimerId w \<le> nextTimerId v"
    and "\<And>t. t \<in> set (timers v) \<Longrightarrow> t \<in> set (timers w) \<or> nextTimerId w \<le> timerId t"
    and "seqTimer v = seqTimer w"
  shows "follows w v"
proof -
  have "seqTimerOk v" if "seqTimerOk w"
    using that assms(5,3,4) by (rule seqTimerOk_frame)
  with assms(1-4) show ?thesis by (auto simp: follows_def since_def)
qed

lemma followsD:
  assumes "follows w v"
  shows "\<exists>xs. trace v = trace w @ xs \<and> since w v = xs
    \<and> (\<forall>t \<in> set (timers w). isToggle (action t) \<longrightarrow> t \<in> set (timers v) \<or> ToneStopped \<in> set xs)"
    and "nextTimerId w \<le> nextTimerId v"
    and "t \<in> set (timers v) \<Longrightarrow> t \<in> set (timers w) \<or> nextTimerId w \<le> timerId t"
    and "seqTimerOk w \<Longrightarrow> seqTimerOk v"
proof -
  from assms have t: "take (length (trace w)) (trace v) = trace w" by (simp add: follows_def)
  have "trace v = take (length (trace w)) (trace v) @ drop (length (trace w)) (trace v)"
    by simp
  with t have "trace v = trace w @ since w v" by (simp add: since_def)
  with assms show "\<exists>xs. trace v = trace w @ xs \<and> since w v = xs
    \<and> (\<forall>t \<in> set (timers w). isToggle (action t) \<longrightarrow> t \<in> set (timers v) \<or> ToneStopped \<in> set xs)"
    by (auto simp: follows_def)
  from assms show "nextTimerId w \<le> nextTimerId v" by (simp add: follows_def)
  from assms show "t \<in> set (timers v) \<Longrightarrow> t \<in> set (timers w) \<or> nextTimerId w \<le> timerId t"
    by (auto simp: follows_def)
  from assms show "seqTimerOk w \<Longrightarrow> seqTimerOk v" by (simp add: follows_def)
qed

lemma follows_refl [simp]: "follows w w"
  by (rule followsI [of _ _ "[]"]) simp_all

lemma follows_trans:
  assumes "follows w v" "follows v u"
  shows "follows w u"
proof -
  from followsD(1) [OF assms(1)] obtain xs where
    xs: "trace v = trace w @ xs"
      "\<And>t. t \<in> set (timers w) \<Longrightarrow> isToggle (action t) \<Longrightarrow> t \<in> set (timers v) \<or> ToneStopped \<in> set xs"
    by blast
  from followsD(1) [OF assms(2)] obtain ys where
    ys: "trace u = trace v @ ys"
      "\<And>t. t \<in> set (timers v) \<Longrightarrow> isToggle (action t) \<Longrightarrow> t \<in> set (timers u) \<or> ToneStopped \<in> set ys"
    by blast
  have tr: "trace u = trace w @ (xs @ ys)" using xs(1) ys(1) by simp
  have kept: "t \<in> set (timers u) \<or> ToneStopped \<in> set (since w u)"
    if "t \<in> set (timers w)" "isToggle (action t)" for t
    using xs(2) [OF that] ys(2) [of t] that(2) by (auto simp: since_def tr)
  have nx: "nextTimerId w \<le> nextTimerId u"
    using followsD(2) [OF assms(1)] followsD(2) [OF assms(2)] by simp
  have fresh: "t \<in> set (timers w) \<or> nextTimerId w \<le> timerId t" if "t \<in> set (timers u)" for t
    using followsD(3) [OF assms(2) that] followsD(3) [OF assms(1), of t] followsD(2) [OF assms(1)]
    by auto
  have ok: "seqTimerOk w \<Longrightarrow> seqTimerOk u"
    using followsD(4) [OF assms(1)] followsD(4) [OF assms(2)] by simp
  show ?thesis
    unfolding follows_def using tr kept nx fresh ok by simp
qed

lemma follows_frame:
  assumes "trace v = trace w" "timers v = timers w" "nextTimerId v = nextTimerId w"
    "seqTimer v = seqTimer w"
  shows "follows w v"
  by (rule followsI [of _ _ "[]"]) (simp_all add: assms)

lemma follows_page [simp]:
  "follows w (setStatus s w)" "follows w (setCurrentKey k w)"
  "follows w (appendLog k w)" "follows w (addActive k w)"
  "follows w (removeActive k w)"
  by (rule followsI; simp add: page_defs)+

lemma follows_setTimeout [simp]: "follows w (snd (setTimeout cb d w))"
  by (rule followsI [of _ _ "[]"]) (auto simp: setTimeout_def)

lemma ensureContext_seqTimer [simp]: "seqTimer (ensureContext w) = seqTimer w"
  by (simp add: ensureContext_def Let_def)

lemma follows_ensureContext [simp]: "follows w (ensureContext w)"
  by (rule follows_frame) (simp_all add: ensureContext_def Let_def)

lemma follows_stopTone [simp]: "follows w (stopTone w)"
proof -
  obtain F where F: "timers (stopTone w) = filter F (timers w)"
    using stopTone_timers_filter [of w] by blast
  show ?thesis
  proof (cases "isStarted w")
    case True
    show ?thesis
      by (rule followsI [of _ _ "[ToneStopped]"]) (simp_all add: stopTone_trace True F)
  next
    case False
    then show ?thesis by (simp add: stopTone_def)
  qed
qed

lemma follows_toggle [simp]: "follows w (toggle b on off w)"
  by (rule followsI [of _ _ "[]"])
    (auto simp: toggle_def setTimeout_def Let_def split: option.splits)

lemma follows_allocTone [simp]: "follows w (worldOf (allocTone k spec mg w))"
proof -
  let ?v = "worldOf (allocTone k spec mg w)"
  have "\<exists>xs ys. trace ?v = trace w @ xs \<and> timers ?v = timers w @ ys
      \<and> (\<forall>t \<in> set ys. nextTimerId w \<le> timerId t)
      \<and> nextTimerId w \<le> nextTimerId ?v \<and> seqTimer ?v = seqTimer w"
    by (auto simp: allocTone_def startOscillator_def finishStart_def toggle_def setTimeout_def
        Let_def split: option.splits)
  then obtain xs ys where "trace ?v = trace w @ xs" "timers ?v = timers w @ ys"
    "\<forall>t \<in> set ys. nextTimerId w \<le> timerId t"
    "nextTimerId w \<le> nextTimerId ?v" "seqTimer ?v = seqTimer w" by blast
  then show ?thesis by (intro followsI [of _ _ xs]) auto
qed

lemma follows_startToneForKey [simp]: "follows w (worldOf (startToneForKey k w))"
proof -
  have a: "follows w (worldOf (allocTone k spec mg (stopTone (ensureContext w))))" for spec mg
    by (rule follows_trans [OF follows_ensureContext])
      (rule follows_trans [OF follows_stopTone], rule follows_allocTone)
  show ?thesis
    by (simp add: startToneForKey_def Let_def a split: option.splits)
qed

lemma follows_andThen:
  assumes "follows w (worldOf r)" "\<And>v. follows v (worldOf (f v))"
  shows "follows w (worldOf (andThen r f))"
proof (cases r)
  case (Returns v)
  with assms(1) assms(2) [of v] show ?thesis by (auto intro: follows_trans)
next
  case (Throws v)
  with assms(1) show ?thesis by simp
qed

lemma follows_playOnce [simp]: "follows w (worldOf (playOnce k w))"
  unfolding playOnce_def
  by (rule follows_andThen)
    (auto simp: Let_def intro: follows_trans [OF follows_page(1) follows_setTimeout])

lemma follows_playKey [simp]: "follows w (worldOf (playKey k w))"
  unfolding playKey_def
proof (rule follows_andThen)
  show "follows w (worldOf (playOnce k (addActive k (appendLog k (setCurrentKey k w)))))"
    by (rule follows_trans [OF follows_page(2)],
        rule follows_trans [OF follows_page(3)],
        rule follows_trans [OF follows_page(4)], rule follows_playOnce)
qed simp

lemma follows_scheduleNextFromBuffer [simp]:
  "follows w (worldOf (scheduleNextFromBuffer w))"
proof (induction w rule: scheduleNextFromBuffer.induct)
  case (1 w)
  have skip: "follows w (w\<lparr>seqBuffer := rest\<rparr>)" for rest
    by (rule follows_frame) simp_all
  have idle: "follows w (setStatus Waiting (w\<lparr>isSeqPlaying := False\<rparr>))"
    by (rule followsI [of _ _ "[SetStatus Waiting]"]) (simp_all add: setStatus_def)
  show ?case
  proof (cases "isSeqPlaying w")
    case False
    then show ?thesis by (subst scheduleNextFromBuffer.simps) simp
  next
    case True
    show ?thesis
    proof (cases "seqBuffer w")
      case Nil
      with True idle show ?thesis by (subst scheduleNextFromBuffer.simps) simp
    next
      case (Cons k rest)
      show ?thesis
      proof (cases "k = [] \<or> \<not> validKeys_has k")
        case skipk: True
        then have "scheduleNextFromBuffer w = scheduleNextFromBuffer (w\<lparr>seqBuffer := rest\<rparr>)"
          using True Cons by (subst scheduleNextFromBuffer.simps) auto
        moreover have "follows (w\<lparr>seqBuffer := rest\<rparr>)
            (worldOf (scheduleNextFromBuffer (w\<lparr>seqBuffer := rest\<rparr>)))"
          using skipk "1.IH"(1) [OF _ Cons] "1.IH"(2) [OF _ Cons] True by auto
        ultimately show ?thesis using follows_trans [OF skip] by simp
      next
        case False
        then have "scheduleNextFromBuffer w = playKey k (w\<lparr>seqBuffer := rest\<rparr>)"
          using True Cons by (subst scheduleNextFromBuffer.simps) auto
        then show ?thesis using follows_trans [OF skip follows_playKey] by simp
      qed
    qed
  qed
qed

lemma follows_cancelSequencePlayback:
  assumes "seqTimerOk w"
  shows "follows w (cancelSequencePlayback w)"
proof (cases "seqTimer w")
  case None
  have "follows w (w\<lparr>isSeqPlaying := False\<rparr>)" by (rule follows_frame) simp_all
  with None show ?thesis by (simp add: cancelSequencePlayback_def)
next
  case (Some i)
  let ?v = "cancelSequencePlayback w"
  have v: "trace ?v = trace w" "timers ?v = filter (\<lambda>t. timerId t \<noteq> i) (timers w)"
    "nextTimerId ?v = nextTimerId w" "seqTimer ?v = None"
    using Some by (simp_all add: cancelSequencePlayback_def clearTimeout_def)
  have kept: "t \<in> set (timers ?v)" if "t \<in> set (timers w)" "isToggle (action t)" for t
  proof -
    have "timerId t \<noteq> i"
    proof
      assume "timerId t = i"
      with assms Some that(1) have "action t = ScheduleNext" by (auto simp: seqTimerOk_def)
      with that(2) show False by simp
    qed
    with that(1) show ?thesis by (simp add: v)
  qed
  show ?thesis
    unfolding follows_def using kept by (auto simp: v seqTimerOk_def since_def)
qed

lemma follows_startSequencePlaybackFromText:
  assumes "seqTimerOk w"
  shows "follows w (worldOf (startSequencePlaybackFromText raw w))"
proof -
  let ?w1 = "w\<lparr>seqBuffer := map (\<lambda>c. [c]) (take 128 raw)\<rparr>"
  have a: "follows w ?w1" by (rule follows_frame) simp_all
  have ok: "seqTimerOk ?w1" using assms by (auto simp: seqTimerOk_def split: option.splits)
  have b: "follows ?w1 (cancelSequencePlayback ?w1)"
    using ok by (rule follows_cancelSequencePlayback)
  have c: "follows (cancelSequencePlayback ?w1) ((cancelSequencePlayback ?w1)\<lparr>isSeqPlaying := True\<rparr>)"
    by (rule follows_frame) simp_all
  note d = follows_trans [OF a follows_trans [OF b follows_trans [OF c follows_scheduleNextFromBuffer]]]
  show ?thesis
    using a d by (cases "raw = []") (simp_all add: startSequencePlaybackFromText_def Let_def)
qed

lemma follows_triggerKeyDown [simp]: "follows w (worldOf (triggerKeyDown k w))"
proof -
  let ?u = "appendLog k (setCurrentKey k (addActive k w))"
  have u: "follows w ?u"
    by (rule follows_trans [OF follows_page(4)], rule follows_trans [OF follows_page(2)],
        rule follows_page(3))
  have s: "follows w (worldOf (startToneForKey k ?u))"
    by (rule follows_trans [OF u follows_startToneForKey])
  have "follows w (worldOf (andThen (startToneForKey k ?u)
            (\<lambda>w2. let w3 = setStatus NowPlaying w2
                   in Returns (snd (setTimeout (AutoStop k) (autoDurationMs w3) w3)))))"
    by (rule follows_andThen [OF s])
      (auto simp: Let_def intro: follows_trans [OF follows_page(1) follows_setTimeout])
  with s show ?thesis by (simp add: triggerKeyDown_def Let_def)
qed

lemma follows_stop_page:
  "follows w (setStatus s (setCurrentKey k (stopTone w)))"
  by (rule follows_trans [OF follows_stopTone], rule follows_trans [OF follows_page(2)],
      rule follows_page(1))

lemma follows_autoStop [simp]: "follows w (autoStop k w)"
  using follows_trans [OF follows_stop_page follows_page(5)]
  by (simp add: autoStop_def)

lemma follows_triggerKeyUp [simp]: "follows w (triggerKeyUp k w)"
  using follows_trans [OF follows_page(5) follows_stop_page]
  by (simp add: triggerKeyUp_def Let_def)

lemma follows_setVolume [simp]: "follows w (setVolume v w)"
  by (rule follows_frame) (simp_all add: setVolume_def Let_def split: option.splits)


lemma follows_playOnceTimeout:
  assumes "consistent w"
  shows "follows w (playOnceTimeout k w)"
proof -
  let ?w1 = "if currentKey w = Some k then setCurrentKey dash (stopTone w) else w"
  let ?r = "snd (setTimeout ScheduleNext (gapMs ?w1) ?w1)"
  let ?v = "?r\<lparr>seqTimer := Some (nextTimerId ?w1)\<rparr>"
  have v: "playOnceTimeout k w = ?v"
    by (simp add: playOnceTimeout_def Let_def setTimeout_def)
  have a: "follows w ?w1"
    using follows_trans [OF follows_stopTone follows_page(2)] by simp
  have b: "follows w ?r" by (rule follows_trans [OF a follows_setTimeout])
  have c1: "consistent ?w1" using assms by (simp add: inv_stopTone)
  then have old: "timerId t < nextTimerId ?w1" if "t \<in> set (timers ?w1)" for t
    using that by (auto simp: inv_defs)
  have "action t = ScheduleNext" if "t \<in> set (timers ?r)" "timerId t = nextTimerId ?w1" for t
  proof -
    from that(1) have "t \<in> set (timers ?w1) \<or> action t = ScheduleNext"
      by (auto simp: setTimeout_def)
    with old [of t] that(2) show ?thesis by auto
  qed
  then have ok: "seqTimerOk ?v"
    by (simp add: seqTimerOk_def setTimeout_def)
  have same: "trace ?v = trace ?r" "timers ?v = timers ?r" "nextTimerId ?v = nextTimerId ?r"
    by simp_all
  show ?thesis
    unfolding v using b ok unfolding follows_def since_def same by blast
qed

lemma follows_runCallback:
  assumes "consistent v"
  shows "follows v (worldOf (runCallback a v))"
  using assms by (cases a) (simp_all add: follows_playOnceTimeout)

lemma follows_remove1:
  assumes "\<not> isToggle (action u)"
  shows "follows w (w\<lparr>timers := remove1 u (timers w), clock := c\<rparr>)"
proof (rule followsI [of _ _ "[]"])
  show "t \<in> set (timers (w\<lparr>timers := remove1 u (timers w), clock := c\<rparr>)) \<or> ToneStopped \<in> set []"
    if "t \<in> set (timers w)" "isToggle (action t)" for t
  proof -
    from that(2) assms have "t \<noteq> u" by auto
    with that(1) show ?thesis by simp
  qed
  show "t \<in> set (timers w) \<or> nextTimerId w \<le> timerId t"
    if "t \<in> set (timers (w\<lparr>timers := remove1 u (timers w), clock := c\<rparr>))" for t
    using that by simp (meson notin_set_remove1)
qed simp_all

lemma follows_fire:
  assumes "consistent w" "u \<in> set (timers w)" "\<not> isToggle (action u)"
  shows "follows w (fire u w)"
proof -
  let ?v = "w\<lparr>timers := remove1 u (timers w), clock := max (clock w) (due u)\<rparr>"
  have "consistent ?v" using assms(1,2) by (rule inv_remove1)
  then have "follows ?v (worldOf (runCallback (action u) ?v))" by (rule follows_runCallback)
  with follows_remove1 [OF assms(3), of w] show ?thesis
    unfolding fire_def by (rule follows_trans)
qed

lemma seqTimerOk_fire:
  assumes "consistent w" "u \<in> set (timers w)" "seqTimerOk w"
  shows "seqTimerOk (fire u w)"
proof -
  let ?v = "w\<lparr>timers := remove1 u (timers w), clock := max (clock w) (due u)\<rparr>"
  have sub: "t \<in> set (timers w)" if "t \<in> set (remove1 u (timers w))" for t
    using that by (meson notin_set_remove1)
  have "seqTimerOk ?v"
    using assms(3) by (rule seqTimerOk_frame) (auto dest: sub)
  moreover have "consistent ?v" using assms(1,2) by (rule inv_remove1)
  ultimately show ?thesis
    using followsD(4) [OF follows_runCallback, of ?v "action u"] by (simp add: fire_def)
qed

lemma follows_handle:
  assumes "consistent w" "seqTimerOk w"
    and "\<And>u. e = Tick \<Longrightarrow> earliest (timers w) = Some u \<Longrightarrow> \<not> isToggle (action u)"
  shows "follows w (handle e w)"
proof (cases e)
  case (PresetChange p)
  have a: "follows w (setDialPreset p w)"
    by (rule follows_frame) (simp_all add: setDialPreset_def)
  from follows_trans [OF a follows_startToneForKey] a PresetChange show ?thesis
    by (simp add: Let_def)
next
  case (ModeChange m)
  have "follows w (w\<lparr>playMode := m\<rparr>)" by (rule follows_frame) simp_all
  from follows_trans [OF this follows_page(1)] ModeChange show ?thesis
    by (simp add: Let_def)
next
  case (DurationInput n)
  have a: "follows w (w\<lparr>autoDurationMs := n\<rparr>)" by (rule follows_frame) simp_all
  from follows_trans [OF a follows_page(1)] a DurationInput show ?thesis
    by (simp add: Let_def)
next
  case (GapInput n)
  have "follows w (w\<lparr>gapMs := n\<rparr>)" by (rule follows_frame) simp_all
  with GapInput show ?thesis by simp
next
  case (PlaySeqClick raw)
  with assms(2) show ?thesis by (simp add: follows_startSequencePlaybackFromText)
next
  case StopSeqClick
  from follows_trans [OF follows_cancelSequencePlayback [OF assms(2)] follows_page(1)]
  show ?thesis using StopSeqClick by simp
next
  case CancelSequencePlayback
  with assms(2) show ?thesis by (simp add: follows_cancelSequencePlayback)
next
  case Tick
  show ?thesis
  proof (cases "earliest (timers w)")
    case None
    with Tick show ?thesis by (simp add: tick_def)
  next
    case (Some u)
    then have "u \<in> set (timers w)" by (rule earliest_in)
    then have "follows w (fire u w)"
      using assms(1) assms(3) [OF Tick Some] by (simp add: follows_fire)
    with Tick Some show ?thesis by (simp add: tick_def)
  qed
next
  case (Elapse n)
  have "follows w (w\<lparr>clock := clock w + n\<rparr>)" by (rule follows_frame) simp_all
  with Elapse show ?thesis by simp
qed simp_all

lemma seqTimerOk_handle:
  assumes "consistent w" "seqTimerOk w"
  shows "seqTimerOk (handle e w)"
proof (cases "\<exists>u. e = Tick \<and> earliest (timers w) = Some u \<and> isToggle (action u)")
  case True
  then obtain u where u: "e = Tick" "earliest (timers w) = Some u" by blast
  then have "u \<in> set (timers w)" using earliest_in by blast
  with assms have "seqTimerOk (fire u w)" by (simp add: seqTimerOk_fire)
  with u show ?thesis by (simp add: tick_def)
next
  case False
  then have "follows w (handle e w)" using assms by (intro follows_handle) auto
  with assms(2) show ?thesis by (simp add: followsD(4))
qed

lemma reachable_seqTimerOk: "reachable w \<Longrightarrow> seqTimerOk w"
proof (induction rule: reachable.induct)
  case (start d g)
  show ?case by (simp add: seqTimerOk_def initial_def)
next
  case (step w e)
  then show ?case using reachable_consistent [of w] by (simp add: seqTimerOk_handle)
qed

lemma toggle_survives:
  assumes r: "reachable w" and t: "t \<in> set (timers w)" "isToggle (action t)"
  shows "t \<in> set (timers (handle e w)) \<or> (e = Tick \<and> handle e w = fire t w)
    \<or> ToneStopped \<in> set (since w (handle e w))"
proof -
  note c = reachable_consistent [OF r]
  note ok = reachable_seqTimerOk [OF r]
  show ?thesis
  proof (cases "\<exists>u. e = Tick \<and> earliest (timers w) = Some u \<and> isToggle (action u)")
    case True
    then obtain u where u: "e = Tick" "earliest (timers w) = Some u" "isToggle (action u)"
      by blast
    from u(2) have "u \<in> set (timers w)" by (rule earliest_in)
    with c t u(3) have "u = t" by (simp add: toggle_unique)
    with u show ?thesis by (simp add: tick_def)
  next
    case False
    then have "follows w (handle e w)" using c ok by (intro follows_handle) auto
    from followsD(1) [OF this] t show ?thesis by auto
  qed
qed

lemma trace_handle:
  assumes "reachable w"
  shows "\<exists>xs. trace (handle e w) = trace w @ xs \<and> since w (handle e w) = xs"
proof (cases "\<exists>u. e = Tick \<and> earliest (timers w) = Some u \<and> isToggle (action u)")
  case True
  then obtain u where u: "e = Tick" "earliest (timers w) = Some u" "isToggle (action u)"
    by blast
  from u(2) have uin: "u \<in> set (timers w)" by (rule earliest_in)
  from u(3) obtain b on off where "action u = Toggle b on off" by (cases "action u") simp_all
  from fire_toggle_timers(2) [OF reachable_consistent [OF assms] uin this] u
  show ?thesis by (simp add: tick_def since_def)
next
  case False
  then have "follows w (handle e w)"
    using reachable_consistent [OF assms] reachable_seqTimerOk [OF assms]
    by (intro follows_handle) auto
  from followsD(1) [OF this] show ?thesis by auto
qed

lemma reachable_after: "reachable w \<Longrightarrow> reachable (after es w)"
  by (induction es arbitrary: w) (simp_all add: reachable.step)

lemma trace_after:
  assumes "reachable w"
  shows "\<exists>xs. trace (after es w) = trace w @ xs"
  using assms
proof (induction es arbitrary: w)
  case Nil
  then show ?case by simp
next
  case (Cons e es)
  from trace_handle [OF Cons.prems, of e] obtain xs where
    "trace (handle e w) = trace w @ xs" by blast
  moreover from Cons.IH [of "handle e w"] Cons.prems obtain ys where
    "trace (after es (handle e w)) = trace (handle e w) @ ys"
    using reachable.step by blast
  ultimately show ?case by simp
qed

lemma cadence_until_stopped:
  assumes "reachable w" "\<not> noToggle w"
  shows "\<not> noToggle (after es w) \<or> ToneStopped \<in> set (since w (after es w))"
  using assms
proof (induction es arbitrary: w)
  case Nil
  then show ?case by simp
next
  case (Cons e es)
  let ?v = "handle e w"
  have rv: "reachable ?v" using Cons.prems(1) by (rule reachable.step)
  from trace_handle [OF Cons.prems(1), of e] obtain xs where
    xs: "trace ?v = trace w @ xs" "since w ?v = xs" by blast
  from trace_after [OF rv, of es]
obtain ys where ys: "trace (after es ?v) = trace ?v @ ys" by blast
  have sw: "since w (after es ?v) = xs @ ys" by (simp add: since_def ys xs(1))
  have sv: "since ?v (after es ?v) = ys" by (simp add: since_def ys)
  show ?case
  proof (cases "noToggle ?v")
    case False
    from Cons.IH [OF rv False] show ?thesis by (auto simp: sw sv)
  next
    case True
    from Cons.prems(2) obtain t where t: "t \<in> set (timers w)" "isToggle (action t)"
      by (auto simp: noToggle_def)
    from t(2) obtain b on off where a: "action t = Toggle b on off"
      by (cases "action t") simp_all
    have "\<not> (e = Tick \<and> ?v = fire t w)"
    proof
      assume f: "e = Tick \<and> ?v = fire t w"
      from fire_toggle(3) [OF reachable_consistent [OF Cons.prems(1)] t(1) a]
      have "\<exists>u. cadenceTimer (fire t w) = Some u \<and> isToggle (action u)" by simp
      then obtain u where "u \<in> set (timers (fire t w))" "isToggle (action u)"
        using cadenceTimer_in by blast
      with True f show False by (auto simp: noToggle_def)
    qed
    moreover have "t \<notin> set (timers ?v)" using True t(2) by (auto simp: noToggle_def)
    ultimately have "ToneStopped \<in> set (since w ?v)"
      using toggle_survives [OF Cons.prems(1) t, of e] by blast
    then show ?thesis by (simp add: sw xs(2))
  qed
qed

text \<open>
  Claim C7. From any state the page can reach, starting the tone of \<open>/\<close> returns with
  the gate at 1 at that very time and the first toggle due 250 ms later, to switch the
  gate off. Left to itself the cadence never ends: after the pending toggle has fired
  \<open>n\<close> times the gate is 1 for even \<open>n\<close> and 0 for odd \<open>n\<close>, the clock stands at the
  due time of the toggle that fired last, and the next toggle is pending 250 ms after
  that, to switch the gate the other way; \<open>stopTone\<close> at any of these moments leaves no
  toggle pending. In general, when a pending toggle fires in a reachable state, it sets
  the gate to 1 when it enters On and to 0 when it enters Off, and schedules the
  opposite toggle \<open>onMs\<close> after the moment it fires when it enters On and \<open>offMs\<close> after
  when it enters Off. Nothing but \<open>stopTone\<close> ends the cycle: whatever event happens
  in a reachable state in which a toggle is pending, afterwards that toggle is still
  pending, or the event was this toggle firing (which leaves the opposite toggle
  pending), or \<open>stopTone\<close> has torn a tone down during the event; and after any list of
  events that follows the start of the tone of \<open>/\<close>, a toggle is pending or \<open>stopTone\<close>
  has torn a tone down since the start.
\<close>

theorem cadence_cycle:
  assumes "reachable w"
  shows "startToneForKey ''/'' w = Returns (worldOf (startToneForKey ''/'' w))
    \<and> gate (worldOf (startToneForKey ''/'' w)) = Some 1
    \<and> clock (worldOf (startToneForKey ''/'' w)) = clock w
    \<and> cadenceTimer (worldOf (startToneForKey ''/'' w))
        = Some \<lparr>timerId = nextTimerId w, due = clock w + 250, action = Toggle False 250 250\<rparr>
    \<and> (\<forall>n. gate (cadenceRun n (worldOf (startToneForKey ''/'' w)))
              = Some (if even n then 1 else 0)
          \<and> clock (cadenceRun n (worldOf (startToneForKey ''/'' w))) = clock w + 250 * n
          \<and> map_option due (cadenceTimer (cadenceRun n (worldOf (startToneForKey ''/'' w))))
              = Some (clock w + 250 * (n + 1))
          \<and> map_option action (cadenceTimer (cadenceRun n (worldOf (startToneForKey ''/'' w))))
              = Some (Toggle (odd n) 250 250)
          \<and> noToggle (stopTone (cadenceRun n (worldOf (startToneForKey ''/'' w))))
          \<and> cadenceTimer (stopTone (cadenceRun n (worldOf (startToneForKey ''/'' w)))) = None)
    \<and> (\<forall>t isOn onMs offMs. t \<in> set (timers w) \<and> action t = Toggle isOn onMs offMs \<longrightarrow>
            gate (fire t w) = Some (if isOn then 1 else 0)
          \<and> clock (fire t w) = max (clock w) (due t)
          \<and> cadenceTimer (fire t w)
              = Some \<lparr>timerId = nextTimerId w,
                      due = max (clock w) (due t) + (if isOn then onMs else offMs),
                      action = Toggle (\<not> isOn) onMs offMs\<rparr>)
    \<and> (\<forall>e t. t \<in> set (timers w) \<and> isToggle (action t) \<longrightarrow>
            t \<in> set (timers (handle e w)) \<or> (e = Tick \<and> handle e w = fire t w)
          \<or> ToneStopped \<in> set (since w (handle e w)))
    \<and> (\<forall>es. \<not> noToggle (after es (worldOf (startToneForKey ''/'' w)))
          \<or> ToneStopped \<in> set (since (worldOf (startToneForKey ''/'' w))
                                  (after es (worldOf (startToneForKey ''/'' w)))))"
proof -
  let ?w0 = "worldOf (startToneForKey ''/'' w)"
  from assms have c: "consistent w" by (rule reachable_consistent)
  then have c0: "consistent ?w0" by (rule inv_startToneForKey)
  note entry = start_disconnect [OF c]
  have cycle: "consistent (cadenceRun n ?w0)
    \<and> gate (cadenceRun n ?w0) = Some (if even n then 1 else 0)
    \<and> clock (cadenceRun n ?w0) = clock w + 250 * n
    \<and> map_option due (cadenceTimer (cadenceRun n ?w0)) = Some (clock w + 250 * (n + 1))
    \<and> map_option action (cadenceTimer (cadenceRun n ?w0)) = Some (Toggle (odd n) 250 250)" for n
    by (rule cadence_forever [OF c0 entry(2) entry(3)]) (simp_all add: entry(4))
  have quiet: "noToggle (stopTone (cadenceRun n ?w0))
      \<and> cadenceTimer (stopTone (cadenceRun n ?w0)) = None" for n
    using cycle [of n] stopTone_quiet [of "cadenceRun n ?w0"] by simp
  have step: "t \<in> set (timers w) \<and> action t = Toggle isOn onMs offMs \<longrightarrow>
            gate (fire t w) = Some (if isOn then 1 else 0)
          \<and> clock (fire t w) = max (clock w) (due t)
          \<and> cadenceTimer (fire t w)
              = Some \<lparr>timerId = nextTimerId w,
                      due = max (clock w) (due t) + (if isOn then onMs else offMs),
                      action = Toggle (\<not> isOn) onMs offMs\<rparr>" for t isOn onMs offMs
    using fire_toggle [OF c, of t isOn onMs offMs] by simp
  have only: "t \<in> set (timers w) \<and> isToggle (action t) \<longrightarrow>
            t \<in> set (timers (handle e w)) \<or> (e = Tick \<and> handle e w = fire t w)
          \<or> ToneStopped \<in> set (since w (handle e w))" for e t
    using toggle_survives [OF assms, of t e] by blast
  have r0: "reachable ?w0"
    using reachable.step [OF assms, of "StartTone ''/''"] by simp
  have "\<not> noToggle ?w0"
    using cadenceTimer_in [OF entry(4)] by (force simp: noToggle_def)
  with r0 have ever: "\<not> noToggle (after es ?w0) \<or> ToneStopped \<in> set (since ?w0 (after es ?w0))"
    for es by (rule cadence_until_stopped)
  from entry cycle quiet step only ever show ?thesis
    by blast
qed


theorem cadence_cycle_witness:
  "reachable (initial 120 40)
   \<and> gate (worldOf (startToneForKey ''/'' (initial 120 40))) = Some 1
   \<and> cadenceTimer (worldOf (startToneForKey ''/'' (initial 120 40)))
       = Some \<lparr>timerId = 1, due = 250, action = Toggle False 250 250\<rparr>
   \<and> gate (cadenceRun 1 (worldOf (startToneForKey ''/'' (initial 120 40)))) = Some 0
   \<and> gate (cadenceRun 2 (worldOf (startToneForKey ''/'' (initial 120 40)))) = Some 1
   \<and> clock (cadenceRun 3 (worldOf (startToneForKey ''/'' (initial 120 40)))) = 750
   \<and> gate (cadenceRun 3 (worldOf (startToneForKey ''/'' (initial 120 40)))) = Some 0
   \<and> map_option due (cadenceTimer (cadenceRun 3 (worldOf (startToneForKey ''/'' (initial 120 40)))))
       = Some 1000
   \<and> map_option action
        (cadenceTimer (cadenceRun 3 (worldOf (startToneForKey ''/'' (initial 120 40)))))
       = Some (Toggle True 250 250)
   \<and> timers (stopTone (cadenceRun 3 (worldOf (startToneForKey ''/'' (initial 120 40))))) = []
   \<and> reachable (handle (StartTone ''/'') (initial 120 40))
   \<and> \<lparr>timerId = 1, due = 250, action = Toggle False 250 250\<rparr>
       \<in> set (timers (handle (StartTone ''/'') (initial 120 40)))
   \<and> gate (fire \<lparr>timerId = 1, due = 250, action = Toggle False 250 250\<rparr>
         (handle (StartTone ''/'') (initial 120 40))) = Some 0
   \<and> cadenceTimer (fire \<lparr>timerId = 1, due = 250, action = Toggle False 250 250\<rparr>
         (handle (StartTone ''/'') (initial 120 40)))
       = Some \<lparr>timerId = 2, due = 500, action = Toggle True 250 250\<rparr>
   \<and> \<lparr>timerId = 1, due = 250, action = Toggle False 250 250\<rparr>
       \<in> set (timers (handle CancelSequencePlayback (handle (StartTone ''/'') (initial 120 40))))
   \<and> since (handle (StartTone ''/'') (initial 120 40))
        (handle (TriggerKeyUp ''/'') (handle (StartTone ''/'') (initial 120 40)))
       = [RemoveActive ''/'', ToneStopped, SetCurrentKey dash, SetStatus Waiting]
   \<and> timers (handle (TriggerKeyUp ''/'') (handle (StartTone ''/'') (initial 120 40))) = []
   \<and> \<not> noToggle (after [Tick, StopSeqClick, VolumeInput 1, Tick]
           (worldOf (startToneForKey ''/'' (initial 120 40))))"
proof -
  have r2: "reachable (handle (StartTone ''/'') (initial 120 40))"
    by (intro reachable.step reachable.start)
  have pending: "\<lparr>timerId = 1, due = 250, action = Toggle False 250 250\<rparr>
       \<in> set (timers (handle (StartTone ''/'') (initial 120 40)))"
    "clock (handle (StartTone ''/'') (initial 120 40)) = 0"
    "nextTimerId (handle (StartTone ''/'') (initial 120 40)) = 2"
    by (simp_all add: disconnect_tone_playing)
  note fires = cadence_cycle [OF r2, THEN conjunct2, THEN conjunct2, THEN conjunct2,
      THEN conjunct2, THEN conjunct2, THEN conjunct1, rule_format,
      of "\<lparr>timerId = 1, due = 250, action = Toggle False 250 250\<rparr>" False 250 250]
  from fires pending
  have fired: "gate (fire \<lparr>timerId = 1, due = 250, action = Toggle False 250 250\<rparr>
         (handle (StartTone ''/'') (initial 120 40))) = Some 0
     \<and> cadenceTimer (fire \<lparr>timerId = 1, due = 250, action = Toggle False 250 250\<rparr>
         (handle (StartTone ''/'') (initial 120 40)))
       = Some \<lparr>timerId = 2, due = 500, action = Toggle True 250 250\<rparr>"
    by simp
  have r: "reachable (initial 120 40)" by (rule reachable.start)
  note th = cadence_cycle [OF r]
  have z: "clock (initial 120 40) = 0" "nextTimerId (initial 120 40) = 1"
    by (simp_all add: initial_def)
  from th have e: "gate (worldOf (startToneForKey ''/'' (initial 120 40))) = Some 1"
    "cadenceTimer (worldOf (startToneForKey ''/'' (initial 120 40)))
       = Some \<lparr>timerId = 1, due = 250, action = Toggle False 250 250\<rparr>"
    by (simp_all add: z)
  from th have n: "gate (cadenceRun n (worldOf (startToneForKey ''/'' (initial 120 40))))
              = Some (if even n then 1 else 0)
          \<and> clock (cadenceRun n (worldOf (startToneForKey ''/'' (initial 120 40)))) = 250 * n
          \<and> map_option due (cadenceTimer (cadenceRun n (worldOf (startToneForKey ''/'' (initial 120 40)))))
              = Some (250 * (n + 1))
          \<and> map_option action (cadenceTimer (cadenceRun n (worldOf (startToneForKey ''/'' (initial 120 40)))))
              = Some (Toggle (odd n) 250 250)" for n
    by (simp add: z)
  have stopped: "timers (stopTone (cadenceRun 3 (worldOf (startToneForKey ''/'' (initial 120 40))))) = []"
    by (simp add: disconnect_tone_playing)
      (simp add: numeral_3_eq_3 fireCadence_def cadenceTimer_def fire_def engine_defs)
  note only = cadence_cycle [OF r2, THEN conjunct2, THEN conjunct2, THEN conjunct2,
      THEN conjunct2, THEN conjunct2, THEN conjunct2, THEN conjunct1, THEN spec,
      of CancelSequencePlayback, THEN spec,
      of "\<lparr>timerId = 1, due = 250, action = Toggle False 250 250\<rparr>"]
  have untouched: "since (handle (StartTone ''/'') (initial 120 40))
        (handle CancelSequencePlayback (handle (StartTone ''/'') (initial 120 40))) = []"
    by (simp add: disconnect_tone_playing) (simp add: since_def cancelSequencePlayback_def)
  from only pending(1) untouched
  have kept: "\<lparr>timerId = 1, due = 250, action = Toggle False 250 250\<rparr>
       \<in> set (timers (handle CancelSequencePlayback (handle (StartTone ''/'') (initial 120 40))))"
    by simp
  have released: "since (handle (StartTone ''/'') (initial 120 40))
        (handle (TriggerKeyUp ''/'') (handle (StartTone ''/'') (initial 120 40)))
       = [RemoveActive ''/'', ToneStopped, SetCurrentKey dash, SetStatus Waiting]"
    "timers (handle (TriggerKeyUp ''/'') (handle (StartTone ''/'') (initial 120 40))) = []"
    by (simp_all add: disconnect_tone_playing)
      (simp_all add: since_def triggerKeyUp_def page_defs engine_defs)
  note ever = th [THEN conjunct2, THEN conjunct2, THEN conjunct2,
      THEN conjunct2, THEN conjunct2, THEN conjunct2, THEN conjunct2, THEN spec,
      of "[Tick, StopSeqClick, VolumeInput 1, Tick]"]
  have silent: "since (worldOf (startToneForKey ''/'' (initial 120 40)))
      (after [Tick, StopSeqClick, VolumeInput 1, Tick]
           (worldOf (startToneForKey ''/'' (initial 120 40)))) = [SetStatus Halted]"
    by (simp add: disconnect_tone_playing)
      (simp add: since_def tick_def fire_def engine_defs cancelSequencePlayback_def
        setStatus_def setVolume_def)
  from ever silent
  have going: "\<not> noToggle (after [Tick, StopSeqClick, VolumeInput 1, Tick]
           (worldOf (startToneForKey ''/'' (initial 120 40))))"
    by simp
  from r e n [of 1] n [of 2] n [of 3] stopped r2 pending(1) fired kept released going
  show ?thesis
    by simp
qed

subsection \<open>The run of a playback\<close>



















lemma cadenceOk_same:
  assumes "cadenceTimeoutId v = cadenceTimeoutId w" "nextTimerId v = nextTimerId w"
    "timers v = timers w"
  shows "cadenceOk v = cadenceOk w"
  by (simp add: cadenceOk_def assms cong: option.case_cong)

lemma cadenceOk_page [simp]:
  "cadenceOk (setStatus s w) = cadenceOk w" "cadenceOk (setCurrentKey k w) = cadenceOk w"
  "cadenceOk (appendLog k w) = cadenceOk w" "cadenceOk (addActive k w) = cadenceOk w"
  "cadenceOk (removeActive k w) = cadenceOk w"
  by (rule cadenceOk_same; simp add: page_defs)+

lemma cadenceOk_fields [simp]:
  "cadenceOk (w\<lparr>seqBuffer := sb\<rparr>) = cadenceOk w"
  "cadenceOk (w\<lparr>isSeqPlaying := sp\<rparr>) = cadenceOk w"
  "cadenceOk (w\<lparr>seqTimer := st\<rparr>) = cadenceOk w"
  "cadenceOk (w\<lparr>playMode := pm\<rparr>) = cadenceOk w"
  "cadenceOk (w\<lparr>autoDurationMs := ad\<rparr>) = cadenceOk w"
  "cadenceOk (w\<lparr>gapMs := gm\<rparr>) = cadenceOk w"
  "cadenceOk (w\<lparr>clock := c\<rparr>) = cadenceOk w"
  "cadenceOk (w\<lparr>dialPreset := dp\<rparr>) = cadenceOk w"
  by (rule cadenceOk_same; simp)+



lemma cadenceOk_ensureContext [simp]: "cadenceOk (ensureContext w) = cadenceOk w"
  by (rule cadenceOk_same) (simp_all add: ensureContext_def Let_def)

















lemma cadenceOk_setVolume [simp]: "cadenceOk (setVolume v w) = cadenceOk w"
  by (rule cadenceOk_same) (simp_all add: setVolume_def Let_def split: option.splits)







lemma ensureContext_player [simp]:
  "isSeqPlaying (ensureContext w) = isSeqPlaying w" "seqBuffer (ensureContext w) = seqBuffer w"
  "trace (ensureContext w) = trace w" "isStarted (ensureContext w) = isStarted w"
  "autoDurationMs (ensureContext w) = autoDurationMs w" "gapMs (ensureContext w) = gapMs w"
  by (simp_all add: ensureContext_def Let_def)



























end
